theory Spec2Isabelle
  imports Main "HOL-Library.Multiset" "HOL-Library.Sublist"
begin

section \<open>Contexts: the cancellation token\<close>

text \<open>
  The programs obtain their cancellation token from \<^verbatim>\<open>context.WithCancel\<close> and
  \<^verbatim>\<open>context.WithTimeout\<close> (16-context/main.go, TestContextCancellation,
  TestContextPattern). A context created this way holds one error slot, empty at first;
  its \<^verbatim>\<open>Done()\<close> channel is closed in the same critical section that fills the slot, so
  the channel is ready exactly when the slot is filled. \<^verbatim>\<open>Err()\<close> reads the slot.
\<close>

datatype ctx_err = Canceled | DeadlineExceeded

record ctx =
  err :: "ctx_err option"

definition WithCancel :: ctx where
  "WithCancel = \<lparr>err = None\<rparr>"

definition done_ready :: "ctx \<Rightarrow> bool" where
  "done_ready c = (err c \<noteq> None)"

text \<open>
  Cancelling with a given error: the first call stores the error (and closes the channel),
  every later call finds the slot filled and returns at once. The \<^verbatim>\<open>cancel\<close> function
  returned by \<^verbatim>\<open>WithCancel\<close> cancels with \<^verbatim>\<open>context.Canceled\<close>; the timer of
  \<^verbatim>\<open>WithTimeout\<close> cancels with \<^verbatim>\<open>context.DeadlineExceeded\<close>.
\<close>

definition cancel_with :: "ctx_err \<Rightarrow> ctx \<Rightarrow> ctx" where
  "cancel_with e c = (case err c of Some _ \<Rightarrow> c | None \<Rightarrow> c\<lparr>err := Some e\<rparr>)"

definition cancel :: "ctx \<Rightarrow> ctx" where
  "cancel = cancel_with Canceled"

section \<open>Go channels\<close>

text \<open>
  A channel made by \<^verbatim>\<open>make(chan T, n)\<close>: the queued values (oldest first), the capacity
  \<open>n\<close> and the closed flag. The three operations follow the language specification:
  a send on a closed channel panics and otherwise needs room in the buffer; a receive
  takes the oldest queued value, reports end of stream on a closed and empty channel and
  blocks on an open and empty one; closing a closed channel panics. A blocked operation
  is a step that is not enabled. The direct hand-over of a value from a sender to a
  receiver that is waiting on an empty channel (the only way an unbuffered channel
  transfers anything) is a step of the programs below.
\<close>

record 'a chan =
  buf :: "'a list"
  cap :: nat
  closed :: bool

definition make_chan :: "nat \<Rightarrow> 'a chan" where
  "make_chan n = \<lparr>buf = [], cap = n, closed = False\<rparr>"

datatype 'a send_result = Sent "'a chan" | SendBlocks | SendPanics

datatype 'a recv_result = Received 'a "'a chan" | RecvClosed | RecvBlocks

definition chan_send :: "'a chan \<Rightarrow> 'a \<Rightarrow> 'a send_result" where
  "chan_send c v =
     (if closed c then SendPanics
      else if length (buf c) < cap c then Sent (c\<lparr>buf := buf c @ [v]\<rparr>)
      else SendBlocks)"

definition chan_recv :: "'a chan \<Rightarrow> 'a recv_result" where
  "chan_recv c =
     (case buf c of
        v # vs \<Rightarrow> Received v (c\<lparr>buf := vs\<rparr>)
      | [] \<Rightarrow> if closed c then RecvClosed else RecvBlocks)"

text \<open>\<open>None\<close> is the panic "close of closed channel".\<close>

definition chan_close :: "'a chan \<Rightarrow> 'a chan option" where
  "chan_close c = (if closed c then None else Some (c\<lparr>closed := True\<rparr>))"

text \<open>Go's \<^verbatim>\<open>int\<close> is 64 bits wide and wraps around.\<close>

definition go_int :: "int \<Rightarrow> int" where
  "go_int x = (x + 2 ^ 63) mod 2 ^ 64 - 2 ^ 63"

section \<open>The worker pool of TestWorkerPoolPattern and TestWorkerPool\<close>

text \<open>
  Both tests build the same pool: \<^verbatim>\<open>numWorkers\<close> goroutines range over the channel
  \<^verbatim>\<open>jobs\<close> and send \<^verbatim>\<open>job * 2\<close> to the channel \<^verbatim>\<open>results\<close>; the jobs \<open>1 .. numJobs\<close> are
  sent and \<^verbatim>\<open>jobs\<close> is closed; one goroutine waits for the wait group and closes
  \<^verbatim>\<open>results\<close>; the test function ranges over \<^verbatim>\<open>results\<close> and records every value in
  a map. In TestWorkerPoolPattern (examples_test.go) a goroutine of its own sends the
  jobs; in TestWorkerPool the test function sends them itself, before it starts the closer
  and collects (\<open>inlineSend\<close>). The tests fix \<^verbatim>\<open>numJobs\<close> (20, 10), \<^verbatim>\<open>numWorkers\<close> (3)
  and give both channels the capacity \<^verbatim>\<open>numJobs\<close>; the model takes all four as
  parameters. The loop counters stay below these constants, far from the range where a
  Go \<^verbatim>\<open>int\<close> wraps; the product \<^verbatim>\<open>job * 2\<close> is computed with wrap-around.
\<close>

record config =
  numJobs :: nat
  numWorkers :: nat
  jobsCap :: nat
  resultsCap :: nat
  inlineSend :: bool

definition TestWorkerPoolPattern :: config where
  "TestWorkerPoolPattern =
     \<lparr>numJobs = 20, numWorkers = 3, jobsCap = 20, resultsCap = 20, inlineSend = False\<rparr>"

definition TestWorkerPool :: config where
  "TestWorkerPool =
     \<lparr>numJobs = 10, numWorkers = 3, jobsCap = 10, resultsCap = 10, inlineSend = True\<rparr>"

text \<open>
  A worker is either at the head of \<^verbatim>\<open>for job := range jobs\<close>, or holds a job and is about
  to send its double (the \<^verbatim>\<open>time.Sleep\<close> of TestWorkerPoolPattern changes no state), or
  has left the loop and run its deferred \<^verbatim>\<open>wg.Done()\<close>.
\<close>

datatype worker = WRange | WSend int | WExited

text \<open>The sending loop with its counter; \<open>PDone\<close> after \<^verbatim>\<open>close(jobs)\<close>.\<close>

datatype producer = PIdle | PSend int | PDone

text \<open>The closer goroutine: not started, in \<^verbatim>\<open>wg.Wait()\<close>, before \<^verbatim>\<open>close(results)\<close>, done.\<close>

datatype closer = CIdle | CWait | CClose | CDone

text \<open>
  The test function: starting workers, sending jobs (TestWorkerPool only), about to start
  the closer, ranging over \<^verbatim>\<open>results\<close>, and past that loop (the checks of the map).
\<close>

datatype main_pc = MStart | MSend | MGoCloser | MCollect | MVerify

text \<open>
  The state of the program. The last four fields are not variables of the program:
  \<open>drained\<close> lists the values the range loop over \<^verbatim>\<open>results\<close> has yielded, in order;
  \<open>delivered\<close> lists which worker received which job; \<open>closes\<close> counts the executions of
  \<^verbatim>\<open>close(results)\<close>; \<open>panicked\<close> records that a goroutine panicked, which ends the program.
\<close>

record state =
  jobs :: "int chan"
  results :: "int chan"
  wg :: int
  workers :: "worker list"
  producer :: producer
  closer :: closer
  main :: main_pc
  received :: "int \<rightharpoonup> bool"
  drained :: "int list"
  delivered :: "(nat \<times> int) list"
  closes :: nat
  panicked :: bool

definition init :: "config \<Rightarrow> state" where
  "init cfg =
     \<lparr>jobs = make_chan (jobsCap cfg), results = make_chan (resultsCap cfg), wg = 0,
      workers = [], producer = PIdle, closer = CIdle, main = MStart,
      received = Map.empty, drained = [], delivered = [], closes = 0, panicked = False\<rparr>"

text \<open>\<^verbatim>\<open>wg.Done()\<close> panics when the counter would become negative.\<close>

definition wg_done :: "state \<Rightarrow> state" where
  "wg_done s = (if wg s - 1 < 0 then s\<lparr>panicked := True\<rparr> else s\<lparr>wg := wg s - 1\<rparr>)"

text \<open>
  One step of the sending loop \<^verbatim>\<open>for j := 1; j <= numJobs; j++ { jobs <- j }\<close>, followed by
  \<^verbatim>\<open>close(jobs)\<close>.
\<close>

definition producer_step :: "config \<Rightarrow> state \<Rightarrow> state option" where
  "producer_step cfg s =
     (case producer s of
        PSend j \<Rightarrow>
          if j \<le> int (numJobs cfg) then
            (case chan_send (jobs s) j of
               Sent c \<Rightarrow> Some (s\<lparr>jobs := c, producer := PSend (j + 1)\<rparr>)
             | SendBlocks \<Rightarrow> None
             | SendPanics \<Rightarrow> Some (s\<lparr>panicked := True\<rparr>))
          else
            (case chan_close (jobs s) of
               Some c \<Rightarrow> Some (s\<lparr>jobs := c, producer := PDone\<rparr>)
             | None \<Rightarrow> Some (s\<lparr>panicked := True\<rparr>))
      | _ \<Rightarrow> None)"

text \<open>
  One step of worker \<open>i\<close>:
  \<^verbatim>\<open>defer wg.Done(); for job := range jobs { results <- job * 2 }\<close>.
\<close>

definition worker_step :: "nat \<Rightarrow> state \<Rightarrow> state option" where
  "worker_step i s =
     (if i < length (workers s) then
        (case workers s ! i of
           WRange \<Rightarrow>
             (case chan_recv (jobs s) of
                Received j c \<Rightarrow>
                  Some (s\<lparr>jobs := c, workers := (workers s)[i := WSend j],
                          delivered := delivered s @ [(i, j)]\<rparr>)
              | RecvClosed \<Rightarrow> Some (wg_done (s\<lparr>workers := (workers s)[i := WExited]\<rparr>))
              | RecvBlocks \<Rightarrow> None)
         | WSend j \<Rightarrow>
             (case chan_send (results s) (go_int (j * 2)) of
                Sent c \<Rightarrow> Some (s\<lparr>results := c, workers := (workers s)[i := WRange]\<rparr>)
              | SendBlocks \<Rightarrow> None
              | SendPanics \<Rightarrow> Some (s\<lparr>panicked := True\<rparr>))
         | WExited \<Rightarrow> None)
      else None)"

text \<open>One step of the closer: \<^verbatim>\<open>wg.Wait(); close(results)\<close>.\<close>

definition closer_step :: "state \<Rightarrow> state option" where
  "closer_step s =
     (case closer s of
        CWait \<Rightarrow> if wg s = 0 then Some (s\<lparr>closer := CClose\<rparr>) else None
      | CClose \<Rightarrow>
          (case chan_close (results s) of
             Some c \<Rightarrow> Some (s\<lparr>results := c, closer := CDone, closes := closes s + 1\<rparr>)
           | None \<Rightarrow> Some (s\<lparr>closes := closes s + 1, panicked := True\<rparr>))
      | _ \<Rightarrow> None)"

text \<open>
  One step of the test function. Starting a worker is \<^verbatim>\<open>wg.Add(1)\<close> and the \<^verbatim>\<open>go\<close>
  statement; when all workers are started it starts the producer goroutine (or enters
  its own sending loop), then starts the closer, then ranges over \<^verbatim>\<open>results\<close>.
\<close>

definition main_step :: "config \<Rightarrow> state \<Rightarrow> state option" where
  "main_step cfg s =
     (case main s of
        MStart \<Rightarrow>
          if length (workers s) < numWorkers cfg then
            Some (s\<lparr>wg := wg s + 1, workers := workers s @ [WRange]\<rparr>)
          else if inlineSend cfg then Some (s\<lparr>producer := PSend 1, main := MSend\<rparr>)
          else Some (s\<lparr>producer := PSend 1, main := MGoCloser\<rparr>)
      | MSend \<Rightarrow>
          (case producer_step cfg s of
             None \<Rightarrow> None
           | Some s' \<Rightarrow> Some (if producer s' = PDone then s'\<lparr>main := MGoCloser\<rparr> else s'))
      | MGoCloser \<Rightarrow> Some (s\<lparr>closer := CWait, main := MCollect\<rparr>)
      | MCollect \<Rightarrow>
          (case chan_recv (results s) of
             Received r c \<Rightarrow>
               Some (s\<lparr>results := c, received := (received s)(r \<mapsto> True),
                       drained := drained s @ [r]\<rparr>)
           | RecvClosed \<Rightarrow> Some (s\<lparr>main := MVerify\<rparr>)
           | RecvBlocks \<Rightarrow> None)
      | MVerify \<Rightarrow> None)"

text \<open>
  Direct hand-over on an empty, open channel: the sender of the jobs to worker \<open>i\<close>
  waiting in its range loop, and worker \<open>i\<close> to the test function waiting in its range loop.
\<close>

definition hand_job :: "config \<Rightarrow> nat \<Rightarrow> state \<Rightarrow> state option" where
  "hand_job cfg i s =
     (case producer s of
        PSend j \<Rightarrow>
          if j \<le> int (numJobs cfg) \<and> (inlineSend cfg \<longrightarrow> main s = MSend) \<and>
             \<not> closed (jobs s) \<and> buf (jobs s) = [] \<and>
             i < length (workers s) \<and> workers s ! i = WRange
          then Some (s\<lparr>workers := (workers s)[i := WSend j], producer := PSend (j + 1),
                       delivered := delivered s @ [(i, j)]\<rparr>)
          else None
      | _ \<Rightarrow> None)"

definition hand_result :: "nat \<Rightarrow> state \<Rightarrow> state option" where
  "hand_result i s =
     (if i < length (workers s) \<and> main s = MCollect \<and>
         \<not> closed (results s) \<and> buf (results s) = []
      then
        (case workers s ! i of
           WSend j \<Rightarrow>
             Some (s\<lparr>workers := (workers s)[i := WRange],
                     received := (received s)(go_int (j * 2) \<mapsto> True),
                     drained := drained s @ [go_int (j * 2)]\<rparr>)
         | _ \<Rightarrow> None)
      else None)"

text \<open>
  The scheduler picks who moves next. A step that is blocked, or of a goroutine that
  has ended or does not exist, gives \<open>None\<close>; after a panic nothing moves.
\<close>

datatype action = AMain | AProducer | AWorker nat | ACloser | AHandJob nat | AHandResult nat

definition exec :: "config \<Rightarrow> action \<Rightarrow> state \<Rightarrow> state option" where
  "exec cfg a s =
     (if panicked s then None
      else case a of
        AMain \<Rightarrow> main_step cfg s
      | AProducer \<Rightarrow> if inlineSend cfg then None else producer_step cfg s
      | AWorker i \<Rightarrow> worker_step i s
      | ACloser \<Rightarrow> closer_step s
      | AHandJob i \<Rightarrow> hand_job cfg i s
      | AHandResult i \<Rightarrow> hand_result i s)"

fun run :: "config \<Rightarrow> action list \<Rightarrow> state \<Rightarrow> state option" where
  "run cfg [] s = Some s"
| "run cfg (a # as) s = (case exec cfg a s of None \<Rightarrow> None | Some s' \<Rightarrow> run cfg as s')"

section \<open>Invariants of the pool\<close>

text \<open>
  The workers that have not exited, the jobs held by workers (received, result not yet
  sent), and the jobs the sender has sent so far.
\<close>

definition active :: "worker list \<Rightarrow> nat" where
  "active ws = length (filter (\<lambda>w. w \<noteq> WExited) ws)"

fun job_of :: "worker \<Rightarrow> int multiset" where
  "job_of (WSend j) = {#j#}"
| "job_of _ = {#}"

definition held :: "worker list \<Rightarrow> int multiset" where
  "held ws = (\<Sum>w\<leftarrow>ws. job_of w)"

fun sent :: "config \<Rightarrow> producer \<Rightarrow> int list" where
  "sent cfg PIdle = []"
| "sent cfg (PSend j) = [1..j - 1]"
| "sent cfg PDone = [1..int (numJobs cfg)]"

text \<open>
  The invariant, one predicate per concern, each over the fields it reads: the control
  states of the goroutines; the \<^verbatim>\<open>jobs\<close> channel (closed exactly when the sender is done,
  and closed and empty once a worker has exited, unless a cancellation has been
  triggered: the parameter \<open>tok\<close>, which is \<open>False\<close> throughout for the pool of the tests);
  the \<^verbatim>\<open>results\<close> channel (closed exactly
  when the closer is done, closed and empty once the range loop has ended); the wait group
  (it counts the workers that have not exited, and is zero once \<^verbatim>\<open>wg.Wait()\<close> has
  returned); every job sent is in the buffer or was delivered; every job delivered is held
  by a worker or its result is in the buffer or was drained; the map holds the drained
  values.
\<close>

definition ctl_ok :: "config \<Rightarrow> main_pc \<Rightarrow> producer \<Rightarrow> closer \<Rightarrow> nat \<Rightarrow> bool" where
  "ctl_ok cfg m p c n \<longleftrightarrow>
     n \<le> numWorkers cfg \<and>
     (m \<noteq> MStart \<longrightarrow> n = numWorkers cfg) \<and>
     (p = PIdle \<longleftrightarrow> m = MStart) \<and>
     (c = CIdle \<longleftrightarrow> m = MStart \<or> m = MSend \<or> m = MGoCloser) \<and>
     (m = MSend \<longleftrightarrow> inlineSend cfg \<and> (\<exists>j. p = PSend j)) \<and>
     (\<forall>j. p = PSend j \<longrightarrow> 1 \<le> j \<and> j \<le> int (numJobs cfg) + 1)"

definition jobs_ok :: "config \<Rightarrow> bool \<Rightarrow> int chan \<Rightarrow> producer \<Rightarrow> worker list \<Rightarrow> bool" where
  "jobs_ok cfg tok jc p ws \<longleftrightarrow>
     cap jc = jobsCap cfg \<and> length (buf jc) \<le> cap jc \<and>
     (closed jc \<longleftrightarrow> p = PDone) \<and>
     (WExited \<in> set ws \<longrightarrow> tok \<or> closed jc \<and> buf jc = [])"

definition results_ok :: "config \<Rightarrow> int chan \<Rightarrow> closer \<Rightarrow> main_pc \<Rightarrow> nat \<Rightarrow> bool" where
  "results_ok cfg rc c m k \<longleftrightarrow>
     cap rc = resultsCap cfg \<and> length (buf rc) \<le> cap rc \<and>
     (closed rc \<longleftrightarrow> c = CDone) \<and>
     k = (if c = CDone then 1 else 0) \<and>
     (m = MVerify \<longrightarrow> closed rc \<and> buf rc = [])"

definition wg_ok :: "int \<Rightarrow> worker list \<Rightarrow> closer \<Rightarrow> bool" where
  "wg_ok g ws c \<longleftrightarrow> g = int (active ws) \<and> (c = CClose \<or> c = CDone \<longrightarrow> g = 0)"

definition sent_ok :: "config \<Rightarrow> (nat \<times> int) list \<Rightarrow> int list \<Rightarrow> producer \<Rightarrow> bool" where
  "sent_ok cfg dl jb p \<longleftrightarrow> mset (map snd dl) + mset jb = mset (sent cfg p)"

definition out_ok :: "worker list \<Rightarrow> int list \<Rightarrow> int list \<Rightarrow> (nat \<times> int) list \<Rightarrow> bool" where
  "out_ok ws rb dr dl \<longleftrightarrow>
     image_mset (\<lambda>j. go_int (j * 2)) (held ws) + mset rb + mset dr =
     image_mset (\<lambda>j. go_int (j * 2)) (mset (map snd dl))"

definition map_ok :: "(int \<rightharpoonup> bool) \<Rightarrow> int list \<Rightarrow> bool" where
  "map_ok rcv dr \<longleftrightarrow> dom rcv = set dr \<and> (\<forall>r. rcv r \<noteq> Some False)"

definition pool_inv :: "bool \<Rightarrow> config \<Rightarrow> state \<Rightarrow> bool" where
  "pool_inv tok cfg s \<longleftrightarrow>
     \<not> panicked s \<and>
     ctl_ok cfg (main s) (producer s) (closer s) (length (workers s)) \<and>
     jobs_ok cfg tok (jobs s) (producer s) (workers s) \<and>
     results_ok cfg (results s) (closer s) (main s) (closes s) \<and>
     wg_ok (wg s) (workers s) (closer s) \<and>
     sent_ok cfg (delivered s) (buf (jobs s)) (producer s) \<and>
     out_ok (workers s) (buf (results s)) (drained s) (delivered s) \<and>
     map_ok (received s) (drained s)"


text \<open>
  A bound on the number of steps the program can still take: every job not yet sent costs
  four steps (send, receive, send of the result, receive of the result), and so on down
  the pipeline; then the \<^verbatim>\<open>close(jobs)\<close>, the start and the exit of every worker, the closer
  and the statements of the test function.
\<close>

fun unsent :: "config \<Rightarrow> producer \<Rightarrow> nat" where
  "unsent cfg PIdle = numJobs cfg"
| "unsent cfg (PSend j) = nat (int (numJobs cfg) + 1 - j)"
| "unsent cfg PDone = 0"

fun closer_left :: "closer \<Rightarrow> nat" where
  "closer_left CIdle = 2"
| "closer_left CWait = 2"
| "closer_left CClose = 1"
| "closer_left CDone = 0"

fun main_left :: "main_pc \<Rightarrow> nat" where
  "main_left MStart = 4"
| "main_left MSend = 3"
| "main_left MGoCloser = 2"
| "main_left MCollect = 1"
| "main_left MVerify = 0"

definition steps_left :: "config \<Rightarrow> state \<Rightarrow> nat" where
  "steps_left cfg s =
     4 * unsent cfg (producer s) + 3 * length (buf (jobs s)) + 2 * size (held (workers s)) +
     length (buf (results s)) + (if producer s = PDone then 0 else 1) +
     2 * (numWorkers cfg - length (workers s)) + active (workers s) +
     closer_left (closer s) + main_left (main s)"


text \<open>
  The checks at the end of both tests: every \<^verbatim>\<open>i * 2\<close> for \<open>i\<close> from 1 to \<^verbatim>\<open>numJobs\<close> is in
  the map, and the map has \<^verbatim>\<open>numJobs\<close> entries. Reading a key that a Go map does not hold
  gives \<^verbatim>\<open>false\<close>.
\<close>

definition lookup :: "(int \<rightharpoonup> bool) \<Rightarrow> int \<Rightarrow> bool" where
  "lookup m k = (case m k of Some b \<Rightarrow> b | None \<Rightarrow> False)"

definition checks_pass :: "config \<Rightarrow> state \<Rightarrow> bool" where
  "checks_pass cfg s \<longleftrightarrow>
     (\<forall>i\<in>{1..int (numJobs cfg)}. lookup (received s) (go_int (i * 2))) \<and>
     card (dom (received s)) = numJobs cfg"

text \<open>A pool of one worker and one job, and a complete run of it.\<close>

definition small_pool :: config where
  "small_pool = \<lparr>numJobs = 1, numWorkers = 1, jobsCap = 1, resultsCap = 1, inlineSend = False\<rparr>"

definition small_run :: "action list" where
  "small_run =
     [AMain, AMain, AMain, AProducer, AProducer, AWorker 0, AWorker 0, AWorker 0,
      ACloser, ACloser, AMain, AMain]"


text \<open>
  The state of that pool after the first five steps of the run: the job is in the buffer
  and \<^verbatim>\<open>jobs\<close> is closed.
\<close>

definition closed_pool :: state where
  "closed_pool =
     (init small_pool)\<lparr>jobs := \<lparr>buf = [1], cap = 1, closed = True\<rparr>, wg := 1,
        workers := [WRange], producer := PDone, main := MCollect, closer := CWait\<rparr>"

text \<open>
  Five jobs, two workers, both channels of capacity two, in either form of the test, and
  a complete run of each form.
\<close>

definition scenario :: "bool \<Rightarrow> config" where
  "scenario b = \<lparr>numJobs = 5, numWorkers = 2, jobsCap = 2, resultsCap = 2, inlineSend = b\<rparr>"

definition scenario_run :: "action list" where
  "scenario_run =
     [AMain, AMain, AMain, AMain,
      AProducer, AProducer, AWorker 0, AWorker 1, AProducer, AProducer,
      AWorker 1, AWorker 0, AMain, AWorker 1, AWorker 0, AProducer, AProducer,
      AWorker 0, AMain, AWorker 1, AWorker 0, AMain, AWorker 0, AWorker 0, AWorker 1,
      ACloser, ACloser, AMain, AMain, AMain]"



section \<open>The ring buffer of TestRingBuffer\<close>

text \<open>
  Three goroutines: the producer sends \<open>0 .. 9\<close> on the unbuffered \<^verbatim>\<open>inCh\<close> and closes it;
  the forwarder ranges over \<^verbatim>\<open>inCh\<close>, tries to send each value on \<^verbatim>\<open>outCh\<close> (capacity 3)
  and, when that send cannot proceed, receives one value from \<^verbatim>\<open>outCh\<close> and then sends;
  it closes \<^verbatim>\<open>outCh\<close> when its loop ends; the test function ranges over \<^verbatim>\<open>outCh\<close>.
\<close>

record rb_config =
  numItems :: nat
  outCap :: nat

definition TestRingBuffer :: rb_config where
  "TestRingBuffer = \<lparr>numItems = 10, outCap = 3\<rparr>"

text \<open>
  The forwarder is at the head of its range loop, at the \<^verbatim>\<open>select\<close> with the value it
  received, in the default branch at \<^verbatim>\<open><-outCh\<close>, in the default branch at
  \<^verbatim>\<open>outCh <- v\<close>, or done (the deferred \<^verbatim>\<open>close(outCh)\<close> has run).
\<close>

datatype forwarder = FRange | FSelect int | FDrop int | FPut int | FDone

datatype rb_producer = RSend int | RDone

datatype rb_consumer = RCollect | RVerify

record rb_state =
  inCh :: "int chan"
  outCh :: "int chan"
  fwd :: forwarder
  prod :: rb_producer
  cons :: rb_consumer
  collected :: "int list"
  rb_panicked :: bool

definition rb_init :: "rb_config \<Rightarrow> rb_state" where
  "rb_init cfg =
     \<lparr>inCh = make_chan 0, outCh = make_chan (outCap cfg), fwd = FRange, prod = RSend 0,
      cons = RCollect, collected = [], rb_panicked = False\<rparr>"

text \<open>
  \<^verbatim>\<open>defer close(outCh); for v := range inCh { select { case outCh <- v: default: <-outCh; outCh <- v } }\<close>
\<close>

definition forwarder_step :: "rb_state \<Rightarrow> rb_state option" where
  "forwarder_step s =
     (case fwd s of
        FRange \<Rightarrow>
          (case chan_recv (inCh s) of
             Received v c \<Rightarrow> Some (s\<lparr>inCh := c, fwd := FSelect v\<rparr>)
           | RecvBlocks \<Rightarrow> None
           | RecvClosed \<Rightarrow>
               (case chan_close (outCh s) of
                  Some c \<Rightarrow> Some (s\<lparr>outCh := c, fwd := FDone\<rparr>)
                | None \<Rightarrow> Some (s\<lparr>rb_panicked := True\<rparr>)))
      | FSelect v \<Rightarrow>
          (case chan_send (outCh s) v of
             Sent c \<Rightarrow> Some (s\<lparr>outCh := c, fwd := FRange\<rparr>)
           | SendBlocks \<Rightarrow> Some (s\<lparr>fwd := FDrop v\<rparr>)
           | SendPanics \<Rightarrow> Some (s\<lparr>rb_panicked := True\<rparr>))
      | FDrop v \<Rightarrow>
          (case chan_recv (outCh s) of
             Received x c \<Rightarrow> Some (s\<lparr>outCh := c, fwd := FPut v\<rparr>)
           | RecvClosed \<Rightarrow> Some (s\<lparr>fwd := FPut v\<rparr>)
           | RecvBlocks \<Rightarrow> None)
      | FPut v \<Rightarrow>
          (case chan_send (outCh s) v of
             Sent c \<Rightarrow> Some (s\<lparr>outCh := c, fwd := FRange\<rparr>)
           | SendBlocks \<Rightarrow> None
           | SendPanics \<Rightarrow> Some (s\<lparr>rb_panicked := True\<rparr>))
      | FDone \<Rightarrow> None)"

text \<open>\<^verbatim>\<open>defer close(inCh); for i := 0; i < 10; i++ { inCh <- i }\<close>\<close>

definition rb_producer_step :: "rb_config \<Rightarrow> rb_state \<Rightarrow> rb_state option" where
  "rb_producer_step cfg s =
     (case prod s of
        RSend i \<Rightarrow>
          if i < int (numItems cfg) then
            (case chan_send (inCh s) i of
               Sent c \<Rightarrow> Some (s\<lparr>inCh := c, prod := RSend (i + 1)\<rparr>)
             | SendBlocks \<Rightarrow> None
             | SendPanics \<Rightarrow> Some (s\<lparr>rb_panicked := True\<rparr>))
          else
            (case chan_close (inCh s) of
               Some c \<Rightarrow> Some (s\<lparr>inCh := c, prod := RDone\<rparr>)
             | None \<Rightarrow> Some (s\<lparr>rb_panicked := True\<rparr>))
      | RDone \<Rightarrow> None)"

text \<open>
  Direct hand-over: on \<^verbatim>\<open>inCh\<close> from the producer to the forwarder waiting in its range
  loop, and on an empty \<^verbatim>\<open>outCh\<close> from a sending forwarder to the waiting test function.
\<close>

definition rb_hand_in :: "rb_config \<Rightarrow> rb_state \<Rightarrow> rb_state option" where
  "rb_hand_in cfg s =
     (case prod s of
        RSend i \<Rightarrow>
          if i < int (numItems cfg) \<and> \<not> closed (inCh s) \<and> buf (inCh s) = [] \<and> fwd s = FRange
          then Some (s\<lparr>fwd := FSelect i, prod := RSend (i + 1)\<rparr>)
          else None
      | RDone \<Rightarrow> None)"

definition rb_hand_out :: "rb_state \<Rightarrow> rb_state option" where
  "rb_hand_out s =
     (if cons s = RCollect \<and> \<not> closed (outCh s) \<and> buf (outCh s) = [] then
        (case fwd s of
           FSelect v \<Rightarrow> Some (s\<lparr>fwd := FRange, collected := collected s @ [v]\<rparr>)
         | FPut v \<Rightarrow> Some (s\<lparr>fwd := FRange, collected := collected s @ [v]\<rparr>)
         | _ \<Rightarrow> None)
      else None)"

text \<open>\<^verbatim>\<open>for result := range outCh { results = append(results, result) }\<close>\<close>

definition rb_consumer_step :: "rb_state \<Rightarrow> rb_state option" where
  "rb_consumer_step s =
     (case cons s of
        RCollect \<Rightarrow>
          (case chan_recv (outCh s) of
             Received r c \<Rightarrow> Some (s\<lparr>outCh := c, collected := collected s @ [r]\<rparr>)
           | RecvClosed \<Rightarrow> Some (s\<lparr>cons := RVerify\<rparr>)
           | RecvBlocks \<Rightarrow> None)
      | RVerify \<Rightarrow> None)"

datatype rb_action = RProducer | RForwarder | RConsumer | RHandIn | RHandOut

definition rb_exec :: "rb_config \<Rightarrow> rb_action \<Rightarrow> rb_state \<Rightarrow> rb_state option" where
  "rb_exec cfg a s =
     (if rb_panicked s then None
      else case a of
        RProducer \<Rightarrow> rb_producer_step cfg s
      | RForwarder \<Rightarrow> forwarder_step s
      | RConsumer \<Rightarrow> rb_consumer_step s
      | RHandIn \<Rightarrow> rb_hand_in cfg s
      | RHandOut \<Rightarrow> rb_hand_out s)"

fun rb_run :: "rb_config \<Rightarrow> rb_action list \<Rightarrow> rb_state \<Rightarrow> rb_state option" where
  "rb_run cfg [] s = Some s"
| "rb_run cfg (a # as) s =
     (case rb_exec cfg a s of None \<Rightarrow> None | Some s' \<Rightarrow> rb_run cfg as s')"

text \<open>
  A schedule of TestRingBuffer: the forwarder fills \<^verbatim>\<open>outCh\<close> with 0, 1, 2, receives 3 and
  finds \<^verbatim>\<open>outCh\<close> full, so its \<^verbatim>\<open>select\<close> takes the default branch; before it executes
  \<^verbatim>\<open><-outCh\<close> the test function receives all three values. \<open>rb_stuck\<close> is the state reached.
\<close>

definition rb_race :: "rb_action list" where
  "rb_race =
     [RHandIn, RForwarder, RHandIn, RForwarder, RHandIn, RForwarder, RHandIn, RForwarder,
      RConsumer, RConsumer, RConsumer]"

definition rb_stuck :: rb_state where
  "rb_stuck =
     \<lparr>inCh = make_chan 0, outCh = make_chan 3, fwd = FDrop 3, prod = RSend 4,
      cons = RCollect, collected = [0, 1, 2], rb_panicked = False\<rparr>"


section \<open>sleepAndTalk (16-context/main.go)\<close>

text \<open>
  \<^verbatim>\<open>select { case <-time.After(d): log.Println(msg); case <-ctx.Done(): log.Println(ctx.Err()) }\<close>

  What the function logs depends on when things happen. Time is counted in nanoseconds
  from the call. The caller's context is given by the instant at which it is cancelled
  (\<open>None\<close>: never; \<open>Some 0\<close>: at the call or before it) and the error it is cancelled with.
\<close>

datatype log_line = LogMsg string | LogErr ctx_err

datatype select_case = TimerCase | DoneCase

record timed_ctx =
  cancel_at :: "nat option"
  cancel_err :: ctx_err

definition ctx_at :: "timed_ctx \<Rightarrow> nat \<Rightarrow> ctx" where
  "ctx_at tc t =
     (case cancel_at tc of
        None \<Rightarrow> WithCancel
      | Some u \<Rightarrow> if u \<le> t then cancel_with (cancel_err tc) WithCancel else WithCancel)"

text \<open>
  What the runtime decides: how long after \<open>d\<close> has elapsed the channel of
  \<^verbatim>\<open>time.After(d)\<close> becomes ready (the timer is created after the call and never fires
  early), the instant at which the \<^verbatim>\<open>select\<close> first polls its cases (after both channel
  expressions have been evaluated), and the case Go's pseudo-random choice takes when
  both are ready.
\<close>

record runtime =
  timer_lag :: nat
  poll_at :: nat
  pick :: select_case

text \<open>
  The \<^verbatim>\<open>select\<close> proceeds at its first poll if a case is ready then, and otherwise at the
  first instant after it at which a case becomes ready. At that instant it takes the case
  that is ready, or the picked one when both are.
\<close>

definition sleepAndTalk :: "timed_ctx \<Rightarrow> int \<Rightarrow> string \<Rightarrow> runtime \<Rightarrow> log_line list" where
  "sleepAndTalk tc d msg rt =
     (let fire = nat d + timer_lag rt;
          first = (case cancel_at tc of None \<Rightarrow> fire | Some u \<Rightarrow> min fire u);
          t = max (poll_at rt) first
      in case err (ctx_at tc t) of
           None \<Rightarrow> [LogMsg msg]
         | Some e \<Rightarrow> if fire \<le> t \<and> pick rt = TimerCase then [LogMsg msg] else [LogErr e])"

definition Second :: nat where
  "Second = 1000000000"

text \<open>
  \<^verbatim>\<open>main\<close>: with the argument "server" or "client" it runs the server or the client
  (client.go and server.go); otherwise it logs "started", has \<^verbatim>\<open>cancel\<close> called by a timer
  of one second (which runs it \<open>cancel_lag\<close> after the second has elapsed) and calls
  \<^verbatim>\<open>sleepAndTalk(ctx, 5*time.Second, "hello")\<close>.
\<close>

datatype program_result = Server | Client | Logged "log_line list"

definition main_program :: "string list \<Rightarrow> nat \<Rightarrow> runtime \<Rightarrow> program_result" where
  "main_program args cancel_lag rt =
     (if length args > 1 \<and> args ! 1 = ''server'' then Server
      else if length args > 1 \<and> args ! 1 = ''client'' then Client
      else Logged (LogMsg ''started'' #
             sleepAndTalk \<lparr>cancel_at = Some (Second + cancel_lag), cancel_err = Canceled\<rparr>
               (5 * int Second) ''hello'' rt))"


section \<open>The pool with the cancellation overlay\<close>

text \<open>
  Modelled from the spec: the cancellation overlay of the pool (sections 4.2, 4.5, 5 and
  6 of the specification). The pools of the tests have no cancellation token and their
  workers end only when \<^verbatim>\<open>jobs\<close> is closed and empty. The state of the pool with the
  overlay is the state of the pool of the tests together with the token.
\<close>

record cpool =
  pool :: state
  token :: ctx

definition cinit :: "config \<Rightarrow> cpool" where
  "cinit cfg = \<lparr>pool = init cfg, token = WithCancel\<rparr>"

text \<open>
  Modelled from the spec: the steps of the pool with the overlay are the steps of the
  pool, \<^verbatim>\<open>Cancel()\<close>, and a worker that leaves its loop because it observes the token.
\<close>

datatype caction = Pool action | Cancel | WorkerStop nat

text \<open>
  Modelled from the spec: the steps that dequeue from the intake ("a Worker repeatedly
  attempts to dequeue one Job from the intake"): a worker at the head of its loop takes
  a step, or a job is handed over to it.
\<close>

definition dequeues :: "action \<Rightarrow> state \<Rightarrow> bool" where
  "dequeues a s =
     (case a of
        AWorker i \<Rightarrow> i < length (workers s) \<and> workers s ! i = WRange
      | AHandJob i \<Rightarrow> True
      | _ \<Rightarrow> False)"

text \<open>
  Modelled from the spec: "cancellation token observed set: worker exits early,
  abandoning any remaining intake items"; "once triggered, every Worker must observe it
  within one polling/select cycle and stop dequeuing; in-flight transforms already
  started are allowed to finish". A worker at the head of its loop observes the token
  when it attempts to dequeue: once the token is set it dequeues nothing and leaves the
  loop, running \<^verbatim>\<open>wg.Done()\<close> as on a normal exit; a worker that holds a job still sends its
  result. \<^verbatim>\<open>Cancel()\<close> sets the token; a further \<^verbatim>\<open>Cancel()\<close> changes nothing and is not a
  step.
\<close>

definition cexec :: "config \<Rightarrow> caction \<Rightarrow> cpool \<Rightarrow> cpool option" where
  "cexec cfg a cs =
     (case a of
        Pool b \<Rightarrow>
          if done_ready (token cs) \<and> dequeues b (pool cs) then None
          else map_option (\<lambda>s'. cs\<lparr>pool := s'\<rparr>) (exec cfg b (pool cs))
      | Cancel \<Rightarrow>
          if panicked (pool cs) \<or> done_ready (token cs) then None
          else Some (cs\<lparr>token := cancel (token cs)\<rparr>)
      | WorkerStop i \<Rightarrow>
          if \<not> panicked (pool cs) \<and> done_ready (token cs) \<and>
             i < length (workers (pool cs)) \<and> workers (pool cs) ! i = WRange
          then Some (cs\<lparr>pool := wg_done ((pool cs)\<lparr>workers := (workers (pool cs))[i := WExited]\<rparr>)\<rparr>)
          else None)"

fun crun :: "config \<Rightarrow> caction list \<Rightarrow> cpool \<Rightarrow> cpool option" where
  "crun cfg [] cs = Some cs"
| "crun cfg (a # as) cs = (case cexec cfg a cs of None \<Rightarrow> None | Some cs' \<Rightarrow> crun cfg as cs')"

text \<open>The invariant and the step bound of the pool with the overlay.\<close>

definition cinv :: "config \<Rightarrow> cpool \<Rightarrow> bool" where
  "cinv cfg cs \<longleftrightarrow> pool_inv (done_ready (token cs)) cfg (pool cs)"

definition csteps_left :: "config \<Rightarrow> cpool \<Rightarrow> nat" where
  "csteps_left cfg cs = steps_left cfg (pool cs) + (if done_ready (token cs) then 0 else 1)"

text \<open>
  The scenario on the configuration of TestWorkerPool: the three workers are started, the
  ten jobs are sent and \<^verbatim>\<open>jobs\<close> is closed (\<open>cancel_run\<close>), then \<^verbatim>\<open>Cancel()\<close>; afterwards the
  closer is started, the workers stop, \<^verbatim>\<open>results\<close> is closed and the range loop ends.
\<close>

definition cancel_run :: "caction list" where
  "cancel_run =
     [Pool AMain, Pool AMain, Pool AMain, Pool AMain,
      Pool AMain, Pool AMain, Pool AMain, Pool AMain, Pool AMain,
      Pool AMain, Pool AMain, Pool AMain, Pool AMain, Pool AMain, Pool AMain]"

definition after_cancel_run :: "caction list" where
  "after_cancel_run =
     [Pool AMain, WorkerStop 1, WorkerStop 0, WorkerStop 2, Pool ACloser, Pool ACloser,
      Pool AMain]"


text \<open>
  Modelled from the spec: the operations \<^verbatim>\<open>Submit\<close> and \<^verbatim>\<open>CloseIntake\<close> and the error kind
  \<^verbatim>\<open>Closed\<close> (sections 6 and 7 of the specification). The sources have no such functions:
  both tests write the statements \<^verbatim>\<open>jobs <- j\<close> and \<^verbatim>\<open>close(jobs)\<close> inline. \<^verbatim>\<open>Submit\<close> is
  that send and \<^verbatim>\<open>CloseIntake\<close> that close, on the state of the pool; the run-time panics
  "send on closed channel" and "close of closed channel", which a deferred \<^verbatim>\<open>recover()\<close>
  of the caller catches, are the error \<^verbatim>\<open>Closed\<close>. A send that finds no room blocks.
\<close>

datatype error = Closed

datatype submit_result = Submitted | Blocks | Fails error

definition Submit :: "int \<Rightarrow> state \<Rightarrow> submit_result \<times> state" where
  "Submit j s =
     (case chan_send (jobs s) j of
        Sent c \<Rightarrow> (Submitted, s\<lparr>jobs := c\<rparr>)
      | SendBlocks \<Rightarrow> (Blocks, s)
      | SendPanics \<Rightarrow> (Fails Closed, s))"

definition CloseIntake :: "state \<Rightarrow> error + state" where
  "CloseIntake s =
     (case chan_close (jobs s) of Some c \<Rightarrow> Inr (s\<lparr>jobs := c\<rparr>) | None \<Rightarrow> Inl Closed)"

text \<open>
  A complete run of TestWorkerPool, ten jobs and three workers: the workers are started,
  the ten jobs sent and \<^verbatim>\<open>jobs\<close> closed, the closer started; the workers take the jobs in
  turn and send the results, then exit; \<^verbatim>\<open>wg.Wait()\<close> returns and \<^verbatim>\<open>results\<close> is closed
  (steps 40 and 41); the ten results are collected and the range loop ends.
\<close>

definition pool_run :: "action list" where
  "pool_run =
     [AMain, AMain, AMain, AMain,
      AMain, AMain, AMain, AMain, AMain, AMain, AMain, AMain, AMain, AMain,
      AMain, AMain,
      AWorker 0, AWorker 1, AWorker 2, AWorker 0, AWorker 1, AWorker 2,
      AWorker 0, AWorker 1, AWorker 2, AWorker 0, AWorker 1, AWorker 2,
      AWorker 0, AWorker 1, AWorker 2, AWorker 0, AWorker 1, AWorker 2,
      AWorker 0, AWorker 0,
      AWorker 0, AWorker 1, AWorker 2,
      ACloser, ACloser,
      AMain, AMain, AMain, AMain, AMain, AMain, AMain, AMain, AMain, AMain, AMain]"


section \<open>Properties of the cancellation token\<close>

lemma cancel_fixed: "err c \<noteq> None \<Longrightarrow> cancel_with e c = c"
  by (auto simp: cancel_with_def)

lemma cancel_sets: "err (cancel_with e c) \<noteq> None"
  by (simp add: cancel_with_def split: option.splits)

lemma cancel_twice: "cancel_with e' (cancel_with e c) = cancel_with e c"
  by (rule cancel_fixed) (rule cancel_sets)

lemma cancel_funpow: "0 < n \<Longrightarrow> (cancel ^^ n) c = cancel c"
proof (induction n)
  case 0
  then show ?case by simp
next
  case (Suc n)
  show ?case
  proof (cases "n = 0")
    case True
    then show ?thesis by simp
  next
    case False
    with Suc.IH have "(cancel ^^ n) c = cancel c" by simp
    then show ?thesis by (simp add: cancel_def cancel_twice)
  qed
qed

text \<open>
  C7. Cancel is idempotent: calling it \<open>n \<ge> 1\<close> times gives the state one call gives,
  with the same observable \<^verbatim>\<open>Done()\<close> and \<^verbatim>\<open>Err()\<close>; the token is set after the first call,
  and a token that is set is never changed again, whatever error a later cancellation
  carries (the deferred \<^verbatim>\<open>cancel()\<close> after the timeout of TestContextCancellation).
\<close>

theorem cancel_idempotent:
  "0 < n \<Longrightarrow>
     (cancel ^^ n) c = cancel c \<and>
     done_ready ((cancel ^^ n) c) \<and>
     err ((cancel ^^ n) c) = err (cancel c) \<and>
     (done_ready c \<longrightarrow> (cancel ^^ n) c = c) \<and>
     cancel_with e ((cancel ^^ n) c) = cancel c"
proof -
  assume "0 < n"
  then have n: "(cancel ^^ n) c = cancel c"
    by (rule cancel_funpow)
  have set: "done_ready (cancel c)"
    by (simp add: done_ready_def cancel_def cancel_sets)
  have fixed: "done_ready c \<longrightarrow> cancel c = c"
    by (simp add: done_ready_def cancel_def cancel_fixed)
  have later: "cancel_with e (cancel c) = cancel c"
    by (simp add: cancel_def cancel_twice)
  from n set fixed later show ?thesis by simp
qed

theorem cancel_idempotent_witness:
  "(cancel ^^ 3) WithCancel = cancel WithCancel \<and>
   done_ready ((cancel ^^ 3) WithCancel) \<and>
   \<not> done_ready WithCancel \<and>
   err ((cancel ^^ 3) WithCancel) = Some Canceled \<and>
   (cancel ^^ 2) (cancel_with DeadlineExceeded WithCancel) = cancel_with DeadlineExceeded WithCancel \<and>
   err ((cancel ^^ 2) (cancel_with DeadlineExceeded WithCancel)) = Some DeadlineExceeded"
  using cancel_idempotent [of 3 WithCancel DeadlineExceeded]
    cancel_idempotent [of 2 "cancel_with DeadlineExceeded WithCancel" Canceled]
  by (simp add: done_ready_def cancel_def cancel_with_def WithCancel_def)

section \<open>The invariant holds in every reachable state\<close>

lemma active_append: "active (ws @ [w]) = active ws + (if w = WExited then 0 else 1)"
  by (simp add: active_def)

lemma active_update:
  "i < length ws \<Longrightarrow>
   active (ws[i := w]) + (if ws ! i = WExited then 0 else 1) =
   active ws + (if w = WExited then 0 else 1)"
  unfolding active_def
proof (induction ws arbitrary: i)
  case Nil
  then show ?case by simp
next
  case (Cons a ws)
  show ?case
  proof (cases i)
    case 0
    then show ?thesis by simp
  next
    case (Suc n)
    with Cons.prems have "n < length ws" by simp
    from Cons.IH [OF this] Suc show ?thesis by (simp split: if_splits)
  qed
qed

lemma active_pos: "i < length ws \<Longrightarrow> ws ! i \<noteq> WExited \<Longrightarrow> 0 < active ws"
  unfolding active_def by (auto simp: filter_empty_conv)

lemma active_zero: "active ws = 0 \<longleftrightarrow> (\<forall>w\<in>set ws. w = WExited)"
  unfolding active_def by (auto simp: filter_empty_conv)

lemma held_append: "held (ws @ [w]) = held ws + job_of w"
  by (simp add: held_def)

lemma held_update:
  "i < length ws \<Longrightarrow> held (ws[i := w]) + job_of (ws ! i) = held ws + job_of w"
  unfolding held_def
proof (induction ws arbitrary: i)
  case Nil
  then show ?case by simp
next
  case (Cons a ws)
  show ?case
  proof (cases i)
    case 0
    then show ?thesis by simp
  next
    case (Suc n)
    with Cons.prems have "n < length ws" by simp
    from Cons.IH [OF this] Suc show ?thesis by (simp add: add.assoc)
  qed
qed

lemma held_exited: "\<forall>w\<in>set ws. w = WExited \<Longrightarrow> held ws = {#}"
  unfolding held_def by (induction ws) auto

lemma exited_update:
  "w \<noteq> WExited \<Longrightarrow> WExited \<in> set (ws[i := w]) \<Longrightarrow> WExited \<in> set ws"
  using set_update_subset_insert [of ws i w] by auto

lemma mset_upto_snoc: "1 \<le> j \<Longrightarrow> mset [1..j] = add_mset j (mset [1..j - 1])"
  by (simp add: upto_rec2)

lemma inv_init: "pool_inv tok cfg (init cfg)"
  by (simp add: pool_inv_def ctl_ok_def jobs_ok_def results_ok_def wg_ok_def sent_ok_def
      out_ok_def map_ok_def init_def make_chan_def active_def held_def)

lemma inv_worker_step:
  assumes inv: "pool_inv tok cfg s" and step: "worker_step i s = Some s'"
  shows "pool_inv tok cfg s'"
proof -
  from step have i: "i < length (workers s)"
    by (auto simp: worker_step_def split: if_splits)
  show ?thesis
  proof (cases "workers s ! i")
    case WRange
    note w = this
    show ?thesis
    proof (cases "buf (jobs s)")
      case Nil
      with step i w have c: "closed (jobs s)"
        and s': "s' = wg_done (s\<lparr>workers := (workers s)[i := WExited]\<rparr>)"
        by (auto simp: worker_step_def chan_recv_def split: if_splits)
      from active_update [OF i, of WExited] w
      have a: "active ((workers s)[i := WExited]) + 1 = active (workers s)" by simp
      from held_update [OF i, of WExited] w
      have h: "held ((workers s)[i := WExited]) = held (workers s)" by simp
      from inv a have g: "\<not> wg s - 1 < 0"
        by (auto simp: pool_inv_def wg_ok_def)
      from inv c Nil have "jobs_ok cfg tok (jobs s) (producer s) ((workers s)[i := WExited])"
        by (auto simp: pool_inv_def jobs_ok_def)
      moreover from inv a have "wg_ok (wg s - 1) ((workers s)[i := WExited]) (closer s)"
        by (auto simp: pool_inv_def wg_ok_def)
      moreover from inv h
      have "out_ok ((workers s)[i := WExited]) (buf (results s)) (drained s) (delivered s)"
        by (simp add: pool_inv_def out_ok_def)
      ultimately show ?thesis using inv g by (simp add: s' wg_done_def pool_inv_def)
    next
      case (Cons j js)
      with step i w have s': "s' = s\<lparr>jobs := (jobs s)\<lparr>buf := js\<rparr>,
          workers := (workers s)[i := WSend j], delivered := delivered s @ [(i, j)]\<rparr>"
        by (auto simp: worker_step_def chan_recv_def)
      from active_update [OF i, of "WSend j"] w
      have a: "active ((workers s)[i := WSend j]) = active (workers s)" by simp
      from held_update [OF i, of "WSend j"] w
      have h: "held ((workers s)[i := WSend j]) = add_mset j (held (workers s))" by simp
      from inv Cons exited_update [of "WSend j" "workers s" i]
      have "jobs_ok cfg tok ((jobs s)\<lparr>buf := js\<rparr>) (producer s) ((workers s)[i := WSend j])"
        by (auto simp: pool_inv_def jobs_ok_def)
      moreover from inv a have "wg_ok (wg s) ((workers s)[i := WSend j]) (closer s)"
        by (auto simp: pool_inv_def wg_ok_def)
      moreover from inv Cons have "sent_ok cfg (delivered s @ [(i, j)]) js (producer s)"
        by (simp add: pool_inv_def sent_ok_def)
      moreover from inv h
      have "out_ok ((workers s)[i := WSend j]) (buf (results s)) (drained s)
          (delivered s @ [(i, j)])"
        by (simp add: pool_inv_def out_ok_def)
      ultimately show ?thesis using inv by (simp add: s' pool_inv_def)
    qed
  next
    case (WSend j)
    note w = this
    from active_update [OF i, of WRange] w
    have a: "active ((workers s)[i := WRange]) = active (workers s)" by simp
    from active_pos [OF i] w have p: "0 < active (workers s)" by simp
    from held_update [OF i, of WRange] w
    have h: "held (workers s) = add_mset j (held ((workers s)[i := WRange]))" by simp
    from inv p have nc: "\<not> closed (results s)"
      by (auto simp: pool_inv_def results_ok_def wg_ok_def)
    with step i w have s': "s' = s\<lparr>results := (results s)\<lparr>buf := buf (results s) @ [go_int (j * 2)]\<rparr>,
          workers := (workers s)[i := WRange]\<rparr>"
        and r: "length (buf (results s)) < cap (results s)"
      by (auto simp: worker_step_def chan_send_def split: if_splits)
    from inv exited_update [of WRange "workers s" i]
    have "jobs_ok cfg tok (jobs s) (producer s) ((workers s)[i := WRange])"
      by (auto simp: pool_inv_def jobs_ok_def)
    moreover from inv r nc
    have "results_ok cfg ((results s)\<lparr>buf := buf (results s) @ [go_int (j * 2)]\<rparr>) (closer s)
        (main s) (closes s)"
      by (auto simp: pool_inv_def results_ok_def)
    moreover from inv a have "wg_ok (wg s) ((workers s)[i := WRange]) (closer s)"
      by (auto simp: pool_inv_def wg_ok_def)
    moreover from inv
    have "out_ok ((workers s)[i := WRange]) (buf (results s) @ [go_int (j * 2)]) (drained s)
        (delivered s)"
      by (simp add: pool_inv_def out_ok_def h)
    ultimately show ?thesis using inv by (simp add: s' pool_inv_def)
  next
    case WExited
    with step i show ?thesis by (simp add: worker_step_def)
  qed
qed

lemma producer_step_cases:
  assumes "producer_step cfg s = Some s'" "pool_inv tok cfg s"
  obtains (send) j where "producer s = PSend j" "j \<le> int (numJobs cfg)"
      "length (buf (jobs s)) < cap (jobs s)"
      "s' = s\<lparr>jobs := (jobs s)\<lparr>buf := buf (jobs s) @ [j]\<rparr>, producer := PSend (j + 1)\<rparr>"
    | (close) "producer s = PSend (int (numJobs cfg) + 1)"
      "s' = s\<lparr>jobs := (jobs s)\<lparr>closed := True\<rparr>, producer := PDone\<rparr>"
proof (cases "producer s")
  case (PSend j)
  with assms(2) have nc: "\<not> closed (jobs s)" and j: "j \<le> int (numJobs cfg) + 1"
    by (auto simp: pool_inv_def jobs_ok_def ctl_ok_def)
  show ?thesis
  proof (cases "j \<le> int (numJobs cfg)")
    case True
    with assms(1) PSend nc show ?thesis
      by (intro send [of j]) (auto simp: producer_step_def chan_send_def split: if_splits)
  next
    case False
    with j have "j = int (numJobs cfg) + 1" by simp
    with assms(1) PSend nc show ?thesis
      by (intro close) (auto simp: producer_step_def chan_close_def)
  qed
qed (use assms(1) in \<open>simp_all add: producer_step_def\<close>)

lemma inv_producer_send:
  assumes inv: "pool_inv tok cfg s" and p: "producer s = PSend j" and j: "j \<le> int (numJobs cfg)"
    and r: "length (buf (jobs s)) < cap (jobs s)"
  shows "pool_inv tok cfg (s\<lparr>jobs := (jobs s)\<lparr>buf := buf (jobs s) @ [j]\<rparr>, producer := PSend (j + 1)\<rparr>)"
proof -
  from inv p j have "ctl_ok cfg (main s) (PSend (j + 1)) (closer s) (length (workers s))"
    by (auto simp: pool_inv_def ctl_ok_def)
  moreover from inv p r
  have "jobs_ok cfg tok ((jobs s)\<lparr>buf := buf (jobs s) @ [j]\<rparr>) (PSend (j + 1)) (workers s)"
    by (auto simp: pool_inv_def jobs_ok_def)
  moreover from inv p have "1 \<le> j" by (auto simp: pool_inv_def ctl_ok_def)
  with inv p have "sent_ok cfg (delivered s) (buf (jobs s) @ [j]) (PSend (j + 1))"
    by (simp add: pool_inv_def sent_ok_def mset_upto_snoc)
  ultimately show ?thesis using inv by (simp add: pool_inv_def)
qed

lemma inv_producer_close:
  assumes inv: "pool_inv tok cfg s" and p: "producer s = PSend (int (numJobs cfg) + 1)"
    and m: "m = (if inlineSend cfg then MGoCloser else main s)"
  shows "pool_inv tok cfg (s\<lparr>jobs := (jobs s)\<lparr>closed := True\<rparr>, producer := PDone, main := m\<rparr>)"
proof -
  from inv p m have "ctl_ok cfg m PDone (closer s) (length (workers s))"
    by (auto simp: pool_inv_def ctl_ok_def)
  moreover from inv p
  have "jobs_ok cfg tok ((jobs s)\<lparr>closed := True\<rparr>) PDone (workers s)"
    by (auto simp: pool_inv_def jobs_ok_def)
  moreover from inv p m have "results_ok cfg (results s) (closer s) m (closes s)"
    by (auto simp: pool_inv_def results_ok_def ctl_ok_def)
  moreover from inv p have "sent_ok cfg (delivered s) (buf (jobs s)) PDone"
    by (simp add: pool_inv_def sent_ok_def)
  ultimately show ?thesis using inv by (simp add: pool_inv_def)
qed

lemma inv_closer_step:
  assumes inv: "pool_inv tok cfg s" and step: "closer_step s = Some s'"
  shows "pool_inv tok cfg s'"
proof (cases "closer s")
  case CWait
  with step have g: "wg s = 0" and s': "s' = s\<lparr>closer := CClose\<rparr>"
    by (auto simp: closer_step_def split: if_splits)
  from inv CWait have "ctl_ok cfg (main s) (producer s) CClose (length (workers s))"
    by (auto simp: pool_inv_def ctl_ok_def)
  moreover from inv CWait have "results_ok cfg (results s) CClose (main s) (closes s)"
    by (auto simp: pool_inv_def results_ok_def)
  moreover from inv g have "wg_ok (wg s) (workers s) CClose"
    by (auto simp: pool_inv_def wg_ok_def)
  ultimately show ?thesis using inv by (simp add: s' pool_inv_def)
next
  case CClose
  from inv CClose have nc: "\<not> closed (results s)"
    by (auto simp: pool_inv_def results_ok_def)
  with step CClose have s': "s' = s\<lparr>results := (results s)\<lparr>closed := True\<rparr>, closer := CDone,
      closes := closes s + 1\<rparr>"
    by (auto simp: closer_step_def chan_close_def)
  from inv CClose have "ctl_ok cfg (main s) (producer s) CDone (length (workers s))"
    by (auto simp: pool_inv_def ctl_ok_def)
  moreover from inv CClose
  have "results_ok cfg ((results s)\<lparr>closed := True\<rparr>) CDone (main s) (Suc (closes s))"
    by (auto simp: pool_inv_def results_ok_def)
  moreover from inv CClose have "wg_ok (wg s) (workers s) CDone"
    by (auto simp: pool_inv_def wg_ok_def)
  ultimately show ?thesis using inv by (simp add: s' pool_inv_def)
qed (use step in \<open>simp_all add: closer_step_def\<close>)

lemma inv_main_step:
  assumes inv: "pool_inv tok cfg s" and step: "main_step cfg s = Some s'"
  shows "pool_inv tok cfg s'"
proof (cases "main s")
  case MStart
  note m = this
  show ?thesis
  proof (cases "length (workers s) < numWorkers cfg")
    case True
    with step m have s': "s' = s\<lparr>wg := wg s + 1, workers := workers s @ [WRange]\<rparr>"
      by (simp add: main_step_def)
    from inv m True
    have "ctl_ok cfg (main s) (producer s) (closer s) (Suc (length (workers s)))"
      by (auto simp: pool_inv_def ctl_ok_def)
    moreover from inv have "jobs_ok cfg tok (jobs s) (producer s) (workers s @ [WRange])"
      by (auto simp: pool_inv_def jobs_ok_def)
    moreover from inv have "wg_ok (wg s + 1) (workers s @ [WRange]) (closer s)"
      by (auto simp: pool_inv_def wg_ok_def ctl_ok_def active_append m)
    moreover from inv
    have "out_ok (workers s @ [WRange]) (buf (results s)) (drained s) (delivered s)"
      by (simp add: pool_inv_def out_ok_def held_append)
    ultimately show ?thesis using inv by (simp add: s' pool_inv_def)
  next
    case False
    define m' where "m' = (if inlineSend cfg then MSend else MGoCloser)"
    from step m False have s': "s' = s\<lparr>producer := PSend 1, main := m'\<rparr>"
      by (auto simp: main_step_def m'_def split: if_splits)
    from inv m False have "ctl_ok cfg m' (PSend 1) (closer s) (length (workers s))"
      by (auto simp: pool_inv_def ctl_ok_def m'_def)
    moreover from inv m have "jobs_ok cfg tok (jobs s) (PSend 1) (workers s)"
      by (auto simp: pool_inv_def jobs_ok_def ctl_ok_def)
    moreover from inv m have "results_ok cfg (results s) (closer s) m' (closes s)"
      by (auto simp: pool_inv_def results_ok_def m'_def)
    moreover from inv m have "sent_ok cfg (delivered s) (buf (jobs s)) (PSend 1)"
      by (auto simp: pool_inv_def sent_ok_def ctl_ok_def)
    ultimately show ?thesis using inv by (simp add: s' pool_inv_def)
  qed
next
  case MSend
  with inv have inl: "inlineSend cfg" by (auto simp: pool_inv_def ctl_ok_def)
  from step MSend obtain t where t: "producer_step cfg s = Some t"
    and s': "s' = (if producer t = PDone then t\<lparr>main := MGoCloser\<rparr> else t)"
    by (auto simp: main_step_def split: option.splits)
  from t inv show ?thesis
  proof (cases rule: producer_step_cases)
    case (send j)
    with inv s' show ?thesis by (simp add: inv_producer_send)
  next
    case close
    with inv_producer_close [OF inv close(1), of MGoCloser] inl s' show ?thesis by simp
  qed
next
  case MGoCloser
  with step have s': "s' = s\<lparr>closer := CWait, main := MCollect\<rparr>"
    by (simp add: main_step_def)
  from inv MGoCloser have "ctl_ok cfg MCollect (producer s) CWait (length (workers s))"
    by (auto simp: pool_inv_def ctl_ok_def)
  moreover from inv MGoCloser have "results_ok cfg (results s) CWait MCollect (closes s)"
    by (auto simp: pool_inv_def results_ok_def ctl_ok_def)
  moreover from inv have "wg_ok (wg s) (workers s) CWait"
    by (auto simp: pool_inv_def wg_ok_def)
  ultimately show ?thesis using inv by (simp add: s' pool_inv_def)
next
  case MCollect
  note m = this
  show ?thesis
  proof (cases "buf (results s)")
    case Nil
    with step m have c: "closed (results s)" and s': "s' = s\<lparr>main := MVerify\<rparr>"
      by (auto simp: main_step_def chan_recv_def split: if_splits)
    from inv m have "ctl_ok cfg MVerify (producer s) (closer s) (length (workers s))"
      by (auto simp: pool_inv_def ctl_ok_def)
    moreover from inv c Nil have "results_ok cfg (results s) (closer s) MVerify (closes s)"
      by (auto simp: pool_inv_def results_ok_def)
    ultimately show ?thesis using inv by (simp add: s' pool_inv_def)
  next
    case (Cons r rs)
    with step m have s': "s' = s\<lparr>results := (results s)\<lparr>buf := rs\<rparr>,
        received := (received s)(r \<mapsto> True), drained := drained s @ [r]\<rparr>"
      by (auto simp: main_step_def chan_recv_def)
    from inv m Cons
    have "results_ok cfg ((results s)\<lparr>buf := rs\<rparr>) (closer s) (main s) (closes s)"
      by (auto simp: pool_inv_def results_ok_def)
    moreover from inv Cons have "out_ok (workers s) rs (drained s @ [r]) (delivered s)"
      by (auto simp: pool_inv_def out_ok_def)
    moreover from inv have "map_ok ((received s)(r \<mapsto> True)) (drained s @ [r])"
      by (auto simp: pool_inv_def map_ok_def)
    ultimately show ?thesis using inv by (simp add: s' pool_inv_def)
  qed
next
  case MVerify
  with step show ?thesis by (simp add: main_step_def)
qed

lemma inv_hand_job:
  assumes inv: "pool_inv tok cfg s" and step: "hand_job cfg i s = Some s'"
  shows "pool_inv tok cfg s'"
proof -
  from step obtain j where p: "producer s = PSend j" and j: "j \<le> int (numJobs cfg)"
    and e: "buf (jobs s) = []" and i: "i < length (workers s)" and w: "workers s ! i = WRange"
    and s': "s' = s\<lparr>workers := (workers s)[i := WSend j], producer := PSend (j + 1),
        delivered := delivered s @ [(i, j)]\<rparr>"
    by (auto simp: hand_job_def split: producer.splits if_splits)
  from active_update [OF i, of "WSend j"] w
  have a: "active ((workers s)[i := WSend j]) = active (workers s)" by simp
  from held_update [OF i, of "WSend j"] w
  have h: "held ((workers s)[i := WSend j]) = add_mset j (held (workers s))" by simp
  from inv p have j1: "1 \<le> j" by (auto simp: pool_inv_def ctl_ok_def)
  from inv p j have "ctl_ok cfg (main s) (PSend (j + 1)) (closer s) (length (workers s))"
    by (auto simp: pool_inv_def ctl_ok_def)
  moreover from inv p exited_update [of "WSend j" "workers s" i]
  have "jobs_ok cfg tok (jobs s) (PSend (j + 1)) ((workers s)[i := WSend j])"
    by (auto simp: pool_inv_def jobs_ok_def)
  moreover from inv a have "wg_ok (wg s) ((workers s)[i := WSend j]) (closer s)"
    by (auto simp: pool_inv_def wg_ok_def)
  moreover from inv p e j1
  have "sent_ok cfg (delivered s @ [(i, j)]) (buf (jobs s)) (PSend (j + 1))"
    by (simp add: pool_inv_def sent_ok_def mset_upto_snoc)
  moreover from inv h
  have "out_ok ((workers s)[i := WSend j]) (buf (results s)) (drained s)
      (delivered s @ [(i, j)])"
    by (simp add: pool_inv_def out_ok_def)
  ultimately show ?thesis using inv by (simp add: s' pool_inv_def)
qed

lemma inv_hand_result:
  assumes inv: "pool_inv tok cfg s" and step: "hand_result i s = Some s'"
  shows "pool_inv tok cfg s'"
proof -
  from step obtain j where i: "i < length (workers s)" and w: "workers s ! i = WSend j"
    and e: "buf (results s) = []"
    and s': "s' = s\<lparr>workers := (workers s)[i := WRange],
        received := (received s)(go_int (j * 2) \<mapsto> True),
        drained := drained s @ [go_int (j * 2)]\<rparr>"
    by (auto simp: hand_result_def split: worker.splits if_splits)
  from active_update [OF i, of WRange] w
  have a: "active ((workers s)[i := WRange]) = active (workers s)" by simp
  from held_update [OF i, of WRange] w
  have h: "held (workers s) = add_mset j (held ((workers s)[i := WRange]))" by simp
  from inv exited_update [of WRange "workers s" i]
  have "jobs_ok cfg tok (jobs s) (producer s) ((workers s)[i := WRange])"
    by (auto simp: pool_inv_def jobs_ok_def)
  moreover from inv a have "wg_ok (wg s) ((workers s)[i := WRange]) (closer s)"
    by (auto simp: pool_inv_def wg_ok_def)
  moreover from inv
  have "out_ok ((workers s)[i := WRange]) (buf (results s)) (drained s @ [go_int (j * 2)])
      (delivered s)"
    by (simp add: pool_inv_def out_ok_def h)
  moreover from inv
  have "map_ok ((received s)(go_int (j * 2) \<mapsto> True)) (drained s @ [go_int (j * 2)])"
    by (auto simp: pool_inv_def map_ok_def)
  ultimately show ?thesis using inv by (simp add: s' pool_inv_def)
qed

lemma inv_exec:
  assumes inv: "pool_inv tok cfg s" and step: "exec cfg a s = Some s'"
  shows "pool_inv tok cfg s'"
proof (cases a)
  case AProducer
  with step have t: "producer_step cfg s = Some s'" and g: "\<not> inlineSend cfg"
    by (auto simp: exec_def split: if_splits)
  from t inv show ?thesis
  proof (cases rule: producer_step_cases)
    case (send j)
    with inv show ?thesis by (simp add: inv_producer_send)
  next
    case close
    with inv_producer_close [OF inv close(1), of "main s"] g show ?thesis by simp
  qed
next
  case AMain
  with step have "main_step cfg s = Some s'" by (simp add: exec_def split: if_splits)
  with inv show ?thesis by (rule inv_main_step)
next
  case (AWorker i)
  with step have "worker_step i s = Some s'" by (simp add: exec_def split: if_splits)
  with inv show ?thesis by (rule inv_worker_step)
next
  case ACloser
  with step have "closer_step s = Some s'" by (simp add: exec_def split: if_splits)
  with inv show ?thesis by (rule inv_closer_step)
next
  case (AHandJob i)
  with step have "hand_job cfg i s = Some s'" by (simp add: exec_def split: if_splits)
  with inv show ?thesis by (rule inv_hand_job)
next
  case (AHandResult i)
  with step have "hand_result i s = Some s'" by (simp add: exec_def split: if_splits)
  with inv show ?thesis by (rule inv_hand_result)
qed

lemma inv_run: "pool_inv tok cfg s \<Longrightarrow> run cfg as s = Some s' \<Longrightarrow> pool_inv tok cfg s'"
proof (induction as arbitrary: s)
  case Nil
  then show ?case by simp
next
  case (Cons a as)
  then show ?case by (auto split: option.splits dest: inv_exec)
qed

lemma inv_reach: "run cfg as (init cfg) = Some s \<Longrightarrow> pool_inv tok cfg s"
  using inv_run [OF inv_init] .

section \<open>The steps of the pool, and termination\<close>

lemma exec_cases [consumes 2, case_names spawn start send close_jobs start_closer collect
    end_collect recv exit send_result wait close_results hand_job hand_result]:
  assumes inv: "pool_inv tok cfg s" and step: "exec cfg a s = Some s'"
  obtains
    (spawn) "a = AMain" "main s = MStart" "length (workers s) < numWorkers cfg"
      "s' = s\<lparr>wg := wg s + 1, workers := workers s @ [WRange]\<rparr>"
  | (start) "a = AMain" "main s = MStart" "\<not> length (workers s) < numWorkers cfg"
      "s' = s\<lparr>producer := PSend 1, main := (if inlineSend cfg then MSend else MGoCloser)\<rparr>"
  | (send) j where "a = AMain \<and> main s = MSend \<or> a = AProducer \<and> \<not> inlineSend cfg"
      "producer s = PSend j" "j \<le> int (numJobs cfg)" "length (buf (jobs s)) < cap (jobs s)"
      "s' = s\<lparr>jobs := (jobs s)\<lparr>buf := buf (jobs s) @ [j]\<rparr>, producer := PSend (j + 1)\<rparr>"
  | (close_jobs) "a = AMain \<and> main s = MSend \<or> a = AProducer \<and> \<not> inlineSend cfg"
      "producer s = PSend (int (numJobs cfg) + 1)"
      "s' = s\<lparr>jobs := (jobs s)\<lparr>closed := True\<rparr>, producer := PDone,
          main := (if inlineSend cfg then MGoCloser else main s)\<rparr>"
  | (start_closer) "a = AMain" "main s = MGoCloser" "s' = s\<lparr>closer := CWait, main := MCollect\<rparr>"
  | (collect) r rs where "a = AMain" "main s = MCollect" "buf (results s) = r # rs"
      "s' = s\<lparr>results := (results s)\<lparr>buf := rs\<rparr>, received := (received s)(r \<mapsto> True),
          drained := drained s @ [r]\<rparr>"
  | (end_collect) "a = AMain" "main s = MCollect" "buf (results s) = []" "closed (results s)"
      "s' = s\<lparr>main := MVerify\<rparr>"
  | (recv) i j js where "a = AWorker i" "i < length (workers s)" "workers s ! i = WRange"
      "buf (jobs s) = j # js"
      "s' = s\<lparr>jobs := (jobs s)\<lparr>buf := js\<rparr>, workers := (workers s)[i := WSend j],
          delivered := delivered s @ [(i, j)]\<rparr>"
  | (exit) i where "a = AWorker i" "i < length (workers s)" "workers s ! i = WRange"
      "buf (jobs s) = []" "closed (jobs s)"
      "s' = s\<lparr>workers := (workers s)[i := WExited], wg := wg s - 1\<rparr>"
  | (send_result) i j where "a = AWorker i" "i < length (workers s)" "workers s ! i = WSend j"
      "length (buf (results s)) < cap (results s)" "\<not> closed (results s)"
      "s' = s\<lparr>results := (results s)\<lparr>buf := buf (results s) @ [go_int (j * 2)]\<rparr>,
          workers := (workers s)[i := WRange]\<rparr>"
  | (wait) "a = ACloser" "closer s = CWait" "wg s = 0" "s' = s\<lparr>closer := CClose\<rparr>"
  | (close_results) "a = ACloser" "closer s = CClose" "\<not> closed (results s)"
      "s' = s\<lparr>results := (results s)\<lparr>closed := True\<rparr>, closer := CDone,
          closes := closes s + 1\<rparr>"
  | (hand_job) i j where "a = AHandJob i" "producer s = PSend j" "j \<le> int (numJobs cfg)"
      "buf (jobs s) = []" "\<not> closed (jobs s)" "i < length (workers s)"
      "workers s ! i = WRange"
      "s' = s\<lparr>workers := (workers s)[i := WSend j], producer := PSend (j + 1),
          delivered := delivered s @ [(i, j)]\<rparr>"
  | (hand_result) i j where "a = AHandResult i" "i < length (workers s)"
      "workers s ! i = WSend j" "main s = MCollect" "buf (results s) = []"
      "\<not> closed (results s)"
      "s' = s\<lparr>workers := (workers s)[i := WRange],
          received := (received s)(go_int (j * 2) \<mapsto> True),
          drained := drained s @ [go_int (j * 2)]\<rparr>"
proof (cases a)
  case AMain
  with step have ms: "main_step cfg s = Some s'" by (simp add: exec_def split: if_splits)
  show ?thesis
  proof (cases "main s")
    case MStart
    with ms AMain spawn start show ?thesis
      by (cases "length (workers s) < numWorkers cfg")
        (auto simp: main_step_def split: if_splits)
  next
    case MSend
    with inv have inl: "inlineSend cfg" by (auto simp: pool_inv_def ctl_ok_def)
    from ms MSend obtain t where t: "producer_step cfg s = Some t"
      and s': "s' = (if producer t = PDone then t\<lparr>main := MGoCloser\<rparr> else t)"
      by (auto simp: main_step_def split: option.splits)
    from t inv show ?thesis
    proof (cases rule: producer_step_cases)
      case (send j)
      with AMain MSend s' show ?thesis by (intro that(3) [of j]) simp_all
    next
      case close
      with AMain MSend s' inl show ?thesis by (intro that(4)) simp_all
    qed
  next
    case MGoCloser
    with ms AMain start_closer show ?thesis by (simp add: main_step_def)
  next
    case MCollect
    show ?thesis
    proof (cases "buf (results s)")
      case Nil
      with ms MCollect AMain end_collect show ?thesis
        by (auto simp: main_step_def chan_recv_def split: if_splits)
    next
      case (Cons r rs)
      with ms MCollect AMain collect [of r rs] show ?thesis
        by (auto simp: main_step_def chan_recv_def)
    qed
  next
    case MVerify
    with ms show ?thesis by (simp add: main_step_def)
  qed
next
  case AProducer
  with step have t: "producer_step cfg s = Some s'" and g: "\<not> inlineSend cfg"
    by (auto simp: exec_def split: if_splits)
  from t inv show ?thesis
  proof (cases rule: producer_step_cases)
    case (send j)
    with AProducer g show ?thesis by (intro that(3) [of j]) simp_all
  next
    case close
    with AProducer g show ?thesis by (intro that(4)) simp_all
  qed
next
  case (AWorker i)
  with step have ws: "worker_step i s = Some s'" by (simp add: exec_def split: if_splits)
  then have i: "i < length (workers s)"
    by (auto simp: worker_step_def split: if_splits)
  show ?thesis
  proof (cases "workers s ! i")
    case WRange
    show ?thesis
    proof (cases "buf (jobs s)")
      case Nil
      with ws i WRange have c: "closed (jobs s)"
        and s': "s' = wg_done (s\<lparr>workers := (workers s)[i := WExited]\<rparr>)"
        by (auto simp: worker_step_def chan_recv_def split: if_splits)
      from active_pos [OF i] WRange inv have "\<not> wg s - 1 < 0"
        by (auto simp: pool_inv_def wg_ok_def)
      with s' have "s' = s\<lparr>workers := (workers s)[i := WExited], wg := wg s - 1\<rparr>"
        by (simp add: wg_done_def)
      with AWorker i WRange Nil c show ?thesis by (intro exit [of i]) simp_all
    next
      case (Cons j js)
      with ws i WRange AWorker recv [of i j js] show ?thesis
        by (auto simp: worker_step_def chan_recv_def)
    qed
  next
    case (WSend j)
    from active_pos [OF i] WSend inv have nc: "\<not> closed (results s)"
      by (auto simp: pool_inv_def results_ok_def wg_ok_def)
    with ws i WSend AWorker send_result [of i j] show ?thesis
      by (auto simp: worker_step_def chan_send_def split: if_splits)
  next
    case WExited
    with ws i show ?thesis by (simp add: worker_step_def)
  qed
next
  case ACloser
  with step have cs: "closer_step s = Some s'" by (simp add: exec_def split: if_splits)
  show ?thesis
  proof (cases "closer s")
    case CWait
    with cs ACloser wait show ?thesis
      by (auto simp: closer_step_def split: if_splits)
  next
    case CClose
    with inv have nc: "\<not> closed (results s)"
      by (auto simp: pool_inv_def results_ok_def)
    with cs CClose ACloser close_results show ?thesis
      by (auto simp: closer_step_def chan_close_def)
  qed (use cs in \<open>simp_all add: closer_step_def\<close>)
next
  case (AHandJob i)
  with step have "hand_job cfg i s = Some s'" by (simp add: exec_def split: if_splits)
  with AHandJob hand_job [of i] show ?thesis
    by (auto simp: hand_job_def split: producer.splits if_splits)
next
  case (AHandResult i)
  with step have "hand_result i s = Some s'" by (simp add: exec_def split: if_splits)
  with AHandResult hand_result [of i] show ?thesis
    by (auto simp: hand_result_def split: worker.splits if_splits)
qed

lemma size_held_update:
  "i < length ws \<Longrightarrow>
   size (held (ws[i := w])) + size (job_of (ws ! i)) = size (held ws) + size (job_of w)"
  using held_update [of i ws w, THEN arg_cong, of size] by simp

lemma steps_left_exec:
  assumes inv: "pool_inv tok cfg s" and step: "exec cfg a s = Some s'"
  shows "steps_left cfg s' < steps_left cfg s"
  using inv step
proof (cases rule: exec_cases)
  case spawn
  then show ?thesis by (simp add: steps_left_def active_append held_append)
next
  case start
  with inv have "producer s = PIdle" by (auto simp: pool_inv_def ctl_ok_def)
  with start show ?thesis by (simp add: steps_left_def)
next
  case (send j)
  then show ?thesis by (simp add: steps_left_def)
next
  case close_jobs
  with inv have "inlineSend cfg \<longrightarrow> main s = MSend" by (auto simp: pool_inv_def ctl_ok_def)
  with close_jobs show ?thesis by (simp add: steps_left_def)
next
  case start_closer
  with inv have "closer s = CIdle" by (auto simp: pool_inv_def ctl_ok_def)
  with start_closer show ?thesis by (simp add: steps_left_def)
next
  case (collect r rs)
  then show ?thesis by (simp add: steps_left_def)
next
  case end_collect
  then show ?thesis by (simp add: steps_left_def)
next
  case (recv i j js)
  with size_held_update [of i "workers s" "WSend j"] active_update [of i "workers s" "WSend j"]
  show ?thesis by (simp add: steps_left_def)
next
  case (exit i)
  with size_held_update [of i "workers s" WExited] active_update [of i "workers s" WExited]
  show ?thesis by (simp add: steps_left_def)
next
  case (send_result i j)
  with size_held_update [of i "workers s" WRange] active_update [of i "workers s" WRange]
  show ?thesis by (simp add: steps_left_def)
next
  case wait
  then show ?thesis by (simp add: steps_left_def)
next
  case close_results
  then show ?thesis by (simp add: steps_left_def)
next
  case (hand_job i j)
  with size_held_update [of i "workers s" "WSend j"] active_update [of i "workers s" "WSend j"]
  show ?thesis by (simp add: steps_left_def)
next
  case (hand_result i j)
  with size_held_update [of i "workers s" WRange] active_update [of i "workers s" WRange]
  show ?thesis by (simp add: steps_left_def)
qed

lemma steps_left_run:
  "pool_inv tok cfg s \<Longrightarrow> run cfg as s = Some t \<Longrightarrow> length as + steps_left cfg t \<le> steps_left cfg s"
proof (induction as arbitrary: s)
  case Nil
  then show ?case by simp
next
  case (Cons a as)
  from Cons.prems(2) obtain s' where a: "exec cfg a s = Some s'" and r: "run cfg as s' = Some t"
    by (auto split: option.splits)
  from Cons.IH [OF inv_exec [OF Cons.prems(1) a] r] steps_left_exec [OF Cons.prems(1) a]
  show ?case by simp
qed

lemma closed_jobs_exec:
  assumes inv: "pool_inv tok cfg s" and step: "exec cfg a s = Some s'" and c: "closed (jobs s)"
  shows "closed (jobs s')"
  using inv step
  by (cases rule: exec_cases) (use c in simp_all)

lemma active_witness: "0 < active ws \<Longrightarrow> \<exists>i<length ws. ws ! i \<noteq> WExited"
  unfolding active_def by (auto simp: filter_empty_conv in_set_conv_nth)

lemma progress:
  assumes inv: "pool_inv tok cfg s" and nf: "main s \<noteq> MVerify"
    and h: "closed (jobs s) \<or> \<not> inlineSend cfg"
  shows "\<exists>a s'. exec cfg a s = Some s'"
proof -
  from inv have np: "\<not> panicked s" by (simp add: pool_inv_def)
  have main_moves: "main_step cfg s \<noteq> None \<Longrightarrow> ?thesis"
    using np by (intro exI [of _ AMain]) (simp add: exec_def)
  show ?thesis
  proof (cases "main s")
    case MStart
    then show ?thesis by (intro main_moves) (auto simp: main_step_def)
  next
    case MSend
    with inv h show ?thesis by (auto simp: pool_inv_def ctl_ok_def jobs_ok_def)
  next
    case MGoCloser
    then show ?thesis by (intro main_moves) (auto simp: main_step_def)
  next
    case MVerify
    with nf show ?thesis by simp
  next
    case MCollect
    note m = this
    show ?thesis
    proof (cases "buf (results s) = [] \<and> \<not> closed (results s)")
      case False
      then show ?thesis
        by (intro main_moves) (auto simp: m main_step_def chan_recv_def split: list.splits)
    next
      case True
      with inv m have c: "closer s = CWait \<or> closer s = CClose"
        by (cases "closer s") (auto simp: pool_inv_def ctl_ok_def results_ok_def)
      show ?thesis
      proof (cases "closer s = CClose \<or> wg s = 0")
        case True
        with c \<open>buf (results s) = [] \<and> \<not> closed (results s)\<close> np
        have "\<exists>t. exec cfg ACloser s = Some t"
          by (auto simp: exec_def closer_step_def chan_close_def)
        then show ?thesis by blast
      next
        case False
        with inv have "0 < active (workers s)" by (auto simp: pool_inv_def wg_ok_def)
        then obtain i where i: "i < length (workers s)" and w: "workers s ! i \<noteq> WExited"
          using active_witness by blast
        show ?thesis
        proof (cases "workers s ! i")
          case (WSend j)
          with i m True np have "\<exists>t. exec cfg (AHandResult i) s = Some t"
            by (simp add: exec_def hand_result_def)
          then show ?thesis by blast
        next
          case WExited
          with w show ?thesis by simp
        next
          case WRange
          show ?thesis
          proof (cases "buf (jobs s) = [] \<and> \<not> closed (jobs s)")
            case False
            with i WRange np have "\<exists>t. exec cfg (AWorker i) s = Some t"
              by (auto simp: exec_def worker_step_def chan_recv_def split: list.splits)
            then show ?thesis by blast
          next
            case True
            with h have g: "\<not> inlineSend cfg" by simp
            from inv True m obtain j where p: "producer s = PSend j"
              by (cases "producer s") (auto simp: pool_inv_def ctl_ok_def jobs_ok_def)
            show ?thesis
            proof (cases "j \<le> int (numJobs cfg)")
              case le: True
              with p g True i WRange np have "\<exists>t. exec cfg (AHandJob i) s = Some t"
                by (simp add: exec_def hand_job_def)
              then show ?thesis by blast
            next
              case gt: False
              with p g True np have "\<exists>t. exec cfg AProducer s = Some t"
                by (simp add: exec_def producer_step_def chan_close_def)
              then show ?thesis by blast
            qed
          qed
        qed
      qed
    qed
  qed
qed

lemma finishes:
  "pool_inv tok cfg s \<Longrightarrow> closed (jobs s) \<or> \<not> inlineSend cfg \<Longrightarrow>
   \<exists>as t. run cfg as s = Some t \<and> main t = MVerify"
proof (induction "steps_left cfg s" arbitrary: s rule: less_induct)
  case less
  show ?case
  proof (cases "main s = MVerify")
    case True
    then have "run cfg [] s = Some s \<and> main s = MVerify" by simp
    then show ?thesis by blast
  next
    case False
    from progress [OF less.prems(1) False less.prems(2)]
    obtain a s' where a: "exec cfg a s = Some s'" by blast
    from less.prems(2) closed_jobs_exec [OF less.prems(1) a]
    have "closed (jobs s') \<or> \<not> inlineSend cfg" by blast
    from less.hyps [OF steps_left_exec [OF less.prems(1) a] inv_exec [OF less.prems(1) a] this]
    obtain as t where "run cfg as s' = Some t" "main t = MVerify" by blast
    with a have "run cfg (a # as) s = Some t \<and> main t = MVerify" by simp
    then show ?thesis by blast
  qed
qed

section \<open>What holds at the end\<close>

lemma final_join:
  assumes inv: "pool_inv tok cfg s" and c: "closed (results s)"
  shows "closer s = CDone \<and> closes s = 1 \<and> wg s = 0 \<and>
         length (workers s) = numWorkers cfg \<and> (\<forall>w\<in>set (workers s). w = WExited)"
proof -
  from inv c have d: "closer s = CDone" and k: "closes s = 1"
    by (auto simp: pool_inv_def results_ok_def)
  with inv have g: "wg s = 0" and a: "active (workers s) = 0"
    by (auto simp: pool_inv_def wg_ok_def)
  from inv d have "length (workers s) = numWorkers cfg"
    by (auto simp: pool_inv_def ctl_ok_def)
  with d k g a show ?thesis by (simp add: active_zero)
qed

lemma final_flow:
  assumes inv: "pool_inv False cfg s" and m: "main s = MVerify" and n: "1 \<le> numWorkers cfg"
  shows "producer s = PDone \<and> buf (jobs s) = [] \<and>
         mset (map snd (delivered s)) = mset [1..int (numJobs cfg)] \<and>
         mset (drained s) = image_mset (\<lambda>j. go_int (j * 2)) (mset [1..int (numJobs cfg)])"
proof -
  from inv m have c: "closed (results s)" and e: "buf (results s) = []"
    by (auto simp: pool_inv_def results_ok_def)
  from final_join [OF inv c] have l: "length (workers s) = numWorkers cfg"
    and x: "\<forall>w\<in>set (workers s). w = WExited" by simp_all
  from l n have "workers s \<noteq> []" by auto
  with x have "WExited \<in> set (workers s)" by (cases "workers s") auto
  with inv have p: "producer s = PDone" and b: "buf (jobs s) = []"
    by (auto simp: pool_inv_def jobs_ok_def)
  with inv have d: "mset (map snd (delivered s)) = mset [1..int (numJobs cfg)]"
    by (simp add: pool_inv_def sent_ok_def)
  from inv e held_exited [OF x] d
  have "mset (drained s) = image_mset (\<lambda>j. go_int (j * 2)) (mset [1..int (numJobs cfg)])"
    by (simp add: pool_inv_def out_ok_def)
  with p b d show ?thesis by simp
qed

lemma sent_upto: "pool_inv tok cfg s \<Longrightarrow> \<exists>k. k \<le> int (numJobs cfg) \<and> sent cfg (producer s) = [1..k]"
proof (cases "producer s")
  case PIdle
  then have "(0::int) \<le> int (numJobs cfg) \<and> sent cfg (producer s) = [1..0]" by simp
  then show ?thesis by blast
next
  case (PSend j)
  moreover assume "pool_inv tok cfg s"
  ultimately have "j - 1 \<le> int (numJobs cfg) \<and> sent cfg (producer s) = [1..j - 1]"
    by (auto simp: pool_inv_def ctl_ok_def)
  then show ?thesis by blast
next
  case PDone
  then show ?thesis by auto
qed

lemma delivered_once:
  assumes inv: "pool_inv tok cfg s"
  shows "distinct (map snd (delivered s)) \<and> set (map snd (delivered s)) \<subseteq> {1..int (numJobs cfg)}"
proof -
  from sent_upto [OF inv] obtain k where k: "k \<le> int (numJobs cfg)"
    and s: "sent cfg (producer s) = [1..k]" by blast
  from inv s have sub: "mset (map snd (delivered s)) \<subseteq># mset [1..k]"
    by (metis pool_inv_def sent_ok_def mset_subset_eq_add_left)
  have "count (mset (map snd (delivered s))) a \<le> 1" for a
    using mset_subset_eq_count [OF sub, of a] distinct_count_atmost_1 [of "[1..k]"]
    by (auto split: if_splits)
  then have "distinct (map snd (delivered s))"
    by (metis distinct_count_atmost_1 le_antisym less_one linorder_not_le set_mset_mset not_in_iff)
  moreover from set_mset_mono [OF sub] k have "set (map snd (delivered s)) \<subseteq> {1..int (numJobs cfg)}"
    by auto
  ultimately show ?thesis ..
qed

lemma same_job_same_worker:
  "distinct (map snd xs) \<Longrightarrow> (i, j) \<in> set xs \<Longrightarrow> (i', j) \<in> set xs \<Longrightarrow> i = i'"
proof -
  assume "distinct (map snd xs)" "(i, j) \<in> set xs" "(i', j) \<in> set xs"
  then have "inj_on snd (set xs)" "snd (i, j) = snd (i', j)"
    by (simp_all add: distinct_map)
  with \<open>(i, j) \<in> set xs\<close> \<open>(i', j) \<in> set xs\<close> have "(i, j) = (i', j)"
    by (rule inj_onD [rotated 2])
  then show ?thesis by simp
qed


text \<open>
  Every run that reaches the checks of the tests passes them (the doubles of the jobs do
  not wrap around for any \<^verbatim>\<open>numJobs\<close> below \<open>2\<^sup>6\<^sup>2\<close>).
\<close>

lemma go_int_id: "- (2 ^ 63) \<le> x \<Longrightarrow> x < 2 ^ 63 \<Longrightarrow> go_int x = x"
  by (simp add: go_int_def)

lemma checks_pass_final:
  assumes r: "run cfg as (init cfg) = Some s" and m: "main s = MVerify"
    and n: "1 \<le> numWorkers cfg" and b: "numJobs cfg < 2 ^ 62"
  shows "checks_pass cfg s"
proof -
  from r have inv: "pool_inv False cfg s" by (rule inv_reach)
  let ?f = "\<lambda>j. go_int (j * 2)"
  from final_flow [OF inv m n]
  have "mset (drained s) = image_mset ?f (mset [1..int (numJobs cfg)])" by simp
  from arg_cong [OF this, of set_mset]
  have d: "set (drained s) = ?f ` {1..int (numJobs cfg)}" by simp
  from inv have dm: "dom (received s) = set (drained s)"
    and nf: "\<And>r. received s r \<noteq> Some False"
    by (simp_all add: pool_inv_def map_ok_def)
  from b have "int (numJobs cfg) < 2 ^ 62" by (metis of_nat_less_iff of_nat_numeral of_nat_power)
  then have id: "?f j = j * 2" if "j \<in> {1..int (numJobs cfg)}" for j
    using that by (intro go_int_id) auto
  then have "inj_on ?f {1..int (numJobs cfg)}"
    by (intro inj_onI) (metis mult_cancel_right zero_neq_numeral)
  from card_image [OF this] d dm have c: "card (dom (received s)) = numJobs cfg" by simp
  have "lookup (received s) (?f i)" if "i \<in> {1..int (numJobs cfg)}" for i
  proof -
    from that d dm have "?f i \<in> dom (received s)" by blast
    then obtain v where "received s (?f i) = Some v" by blast
    with nf [of "?f i"] show ?thesis by (cases v) (simp_all add: lookup_def)
  qed
  with c show ?thesis by (simp add: checks_pass_def)
qed

lemma tests_pass:
  "run TestWorkerPoolPattern as (init TestWorkerPoolPattern) = Some s \<Longrightarrow> main s = MVerify \<Longrightarrow>
   checks_pass TestWorkerPoolPattern s"
  "run TestWorkerPool as (init TestWorkerPool) = Some s \<Longrightarrow> main s = MVerify \<Longrightarrow>
   checks_pass TestWorkerPool s"
  by (rule checks_pass_final; simp add: TestWorkerPoolPattern_def TestWorkerPool_def)+

text \<open>
  Where the test function sends the jobs itself, it cannot block while \<^verbatim>\<open>jobs\<close> has
  room for all of them, as in TestWorkerPool; so there, too, some step is enabled until
  the range loop has ended, and a run that ends it exists from every reachable state.
\<close>

lemma closed_jobs_run:
  "pool_inv tok cfg s \<Longrightarrow> run cfg bs s = Some t \<Longrightarrow> closed (jobs s) \<Longrightarrow> closed (jobs t)"
proof (induction bs arbitrary: s)
  case Nil
  then show ?case by simp
next
  case (Cons a bs)
  from Cons.prems(2) obtain s' where a: "exec cfg a s = Some s'" and r: "run cfg bs s' = Some t"
    by (auto split: option.splits)
  from Cons.IH [OF inv_exec [OF Cons.prems(1) a] r closed_jobs_exec [OF Cons.prems(1) a Cons.prems(3)]]
  show ?case .
qed

lemma progress_start:
  assumes inv: "pool_inv tok cfg s" and nf: "main s \<noteq> MVerify"
    and h: "closed (jobs s) \<or> \<not> inlineSend cfg \<or> numJobs cfg \<le> jobsCap cfg"
  shows "\<exists>a s'. exec cfg a s = Some s'"
proof (cases "closed (jobs s) \<or> \<not> inlineSend cfg")
  case True
  with inv nf show ?thesis by (rule progress)
next
  case False
  with h have cap: "numJobs cfg \<le> jobsCap cfg" and inl: "inlineSend cfg"
    and nc: "\<not> closed (jobs s)" by simp_all
  from inv have np: "\<not> panicked s" by (simp add: pool_inv_def)
  have main_moves: "main_step cfg s \<noteq> None \<Longrightarrow> ?thesis"
    using np by (intro exI [of _ AMain]) (simp add: exec_def)
  show ?thesis
  proof (cases "main s = MStart")
    case True
    then show ?thesis by (intro main_moves) (auto simp: main_step_def)
  next
    case False
    with inv inl nc obtain j where m: "main s = MSend" and p: "producer s = PSend j"
      and j: "j \<le> int (numJobs cfg) + 1" and j1: "1 \<le> j"
      by (cases "producer s") (auto simp: pool_inv_def ctl_ok_def jobs_ok_def)
    from inv p have "mset (map snd (delivered s)) + mset (buf (jobs s)) = mset [1..j - 1]"
      by (simp add: pool_inv_def sent_ok_def)
    from arg_cong [OF this, of size] j1 have l: "int (length (buf (jobs s))) \<le> j - 1"
      by simp
    from inv have c: "cap (jobs s) = jobsCap cfg" by (simp add: pool_inv_def jobs_ok_def)
    show ?thesis
    proof (cases "j \<le> int (numJobs cfg)")
      case True
      with l cap c have "length (buf (jobs s)) < cap (jobs s)" by simp
      with True m p nc show ?thesis
        by (intro main_moves) (simp add: main_step_def producer_step_def chan_send_def)
    next
      case False
      with m p nc show ?thesis
        by (intro main_moves) (simp add: main_step_def producer_step_def chan_close_def)
    qed
  qed
qed

lemma start_cond_exec:
  assumes inv: "pool_inv tok cfg s" and step: "exec cfg a s = Some s'"
    and h: "closed (jobs s) \<or> \<not> inlineSend cfg \<or> numJobs cfg \<le> jobsCap cfg"
  shows "closed (jobs s') \<or> \<not> inlineSend cfg \<or> numJobs cfg \<le> jobsCap cfg"
  using h closed_jobs_exec [OF inv step] by blast

lemma start_cond_run:
  "pool_inv tok cfg s \<Longrightarrow> run cfg bs s = Some t \<Longrightarrow>
   closed (jobs s) \<or> \<not> inlineSend cfg \<or> numJobs cfg \<le> jobsCap cfg \<Longrightarrow>
   closed (jobs t) \<or> \<not> inlineSend cfg \<or> numJobs cfg \<le> jobsCap cfg"
  using closed_jobs_run by blast

lemma finishes_start:
  "pool_inv tok cfg s \<Longrightarrow>
   closed (jobs s) \<or> \<not> inlineSend cfg \<or> numJobs cfg \<le> jobsCap cfg \<Longrightarrow>
   \<exists>bs t. run cfg bs s = Some t \<and> main t = MVerify"
proof (induction "steps_left cfg s" arbitrary: s rule: less_induct)
  case less
  show ?case
  proof (cases "main s = MVerify")
    case True
    then have "run cfg [] s = Some s \<and> main s = MVerify" by simp
    then show ?thesis by blast
  next
    case False
    from progress_start [OF less.prems(1) False less.prems(2)]
    obtain a s' where a: "exec cfg a s = Some s'" by blast
    from less.hyps [OF steps_left_exec [OF less.prems(1) a] inv_exec [OF less.prems(1) a]
        start_cond_exec [OF less.prems(1) a less.prems(2)]]
    obtain bs t where "run cfg bs s' = Some t" "main t = MVerify" by blast
    with a have "run cfg (a # bs) s = Some t \<and> main t = MVerify" by simp
    then show ?thesis by blast
  qed
qed

lemma drained_final:
  assumes inv: "pool_inv False cfg t" and m: "main t = MVerify" and n: "1 \<le> numWorkers cfg"
  shows "length (drained t) = numJobs cfg \<and>
         mset (drained t) = image_mset (\<lambda>j. go_int (j * 2)) (mset [1..int (numJobs cfg)])"
proof -
  from final_flow [OF inv m n]
  have d: "mset (drained t) = image_mset (\<lambda>j. go_int (j * 2)) (mset [1..int (numJobs cfg)])"
    by simp
  from arg_cong [OF d, of size] have "length (drained t) = numJobs cfg" by simp
  with d show ?thesis by simp
qed


section \<open>The claims about the pool\<close>

lemmas step_defs = exec_def main_step_def producer_step_def worker_step_def closer_step_def
  hand_job_def hand_result_def wg_done_def chan_send_def chan_recv_def chan_close_def
  init_def make_chan_def go_int_def

text \<open>
  C1. From every reachable state of the pool in which the jobs can all be submitted
  (\<^verbatim>\<open>jobs\<close> is closed already, or a goroutine of its own sends them, or \<^verbatim>\<open>jobs\<close> has room
  for all of them), with at least one worker: a continuation exists that ends the range
  loop over \<^verbatim>\<open>results\<close>; every continuation is finite and none stops before the loop has
  ended; and whenever the loop has ended, it has drained exactly \<^verbatim>\<open>numJobs\<close> values, the
  doubles of the jobs \<open>1 .. numJobs\<close>, each as often as it was sent, none lost and none
  duplicated. The pool has no cancellation.
\<close>

theorem drain_yields_every_result:
  assumes "run cfg as (init cfg) = Some s" and "1 \<le> numWorkers cfg"
    and "closed (jobs s) \<or> \<not> inlineSend cfg \<or> numJobs cfg \<le> jobsCap cfg"
  shows "(\<exists>bs t. run cfg bs s = Some t \<and> main t = MVerify \<and>
            length (drained t) = numJobs cfg \<and>
            mset (drained t) = image_mset (\<lambda>j. go_int (j * 2)) (mset [1..int (numJobs cfg)])) \<and>
         (\<forall>bs t. run cfg bs s = Some t \<longrightarrow>
            length bs \<le> steps_left cfg s \<and>
            (main t \<noteq> MVerify \<longrightarrow> (\<exists>a t'. exec cfg a t = Some t')) \<and>
            (main t = MVerify \<longrightarrow>
               length (drained t) = numJobs cfg \<and>
               mset (drained t) =
                 image_mset (\<lambda>j. go_int (j * 2)) (mset [1..int (numJobs cfg)])))"
proof -
  from assms(1) have inv: "pool_inv False cfg s" by (rule inv_reach)
  have every: "length bs \<le> steps_left cfg s \<and>
      (main t \<noteq> MVerify \<longrightarrow> (\<exists>a t'. exec cfg a t = Some t')) \<and>
      (main t = MVerify \<longrightarrow>
         length (drained t) = numJobs cfg \<and>
         mset (drained t) = image_mset (\<lambda>j. go_int (j * 2)) (mset [1..int (numJobs cfg)]))"
    if r: "run cfg bs s = Some t" for bs t
  proof -
    from inv_run [OF inv r] have inv': "pool_inv False cfg t" .
    from steps_left_run [OF inv r] have b: "length bs \<le> steps_left cfg s" by simp
    from progress_start [OF inv' _ start_cond_run [OF inv r assms(3)]]
    have p: "main t \<noteq> MVerify \<longrightarrow> (\<exists>a t'. exec cfg a t = Some t')" by blast
    from drained_final [OF inv' _ assms(2)] b p show ?thesis by blast
  qed
  from finishes_start [OF inv assms(3)]
  obtain bs t where r: "run cfg bs s = Some t" and m: "main t = MVerify" by blast
  with every [OF r] have "run cfg bs s = Some t \<and> main t = MVerify \<and>
      length (drained t) = numJobs cfg \<and>
      mset (drained t) = image_mset (\<lambda>j. go_int (j * 2)) (mset [1..int (numJobs cfg)])"
    by simp
  then have "\<exists>bs t. run cfg bs s = Some t \<and> main t = MVerify \<and>
      length (drained t) = numJobs cfg \<and>
      mset (drained t) = image_mset (\<lambda>j. go_int (j * 2)) (mset [1..int (numJobs cfg)])"
    by blast
  with every show ?thesis by blast
qed

theorem drain_yields_every_result_witness:
  "\<exists>t. run TestWorkerPool [] (init TestWorkerPool) = Some (init TestWorkerPool) \<and>
       1 \<le> numWorkers TestWorkerPool \<and> numJobs TestWorkerPool \<le> jobsCap TestWorkerPool \<and>
       run TestWorkerPool pool_run (init TestWorkerPool) = Some t \<and> main t = MVerify \<and>
       workers t = [WExited, WExited, WExited] \<and>
       drained t = [2, 4, 6, 8, 10, 12, 14, 16, 18, 20] \<and>
       length (drained t) = numJobs TestWorkerPool \<and>
       length pool_run \<le> steps_left TestWorkerPool (init TestWorkerPool)"
proof -
  have r: "run TestWorkerPool [] (init TestWorkerPool) = Some (init TestWorkerPool)" by simp
  have n: "1 \<le> numWorkers TestWorkerPool"
    and c: "numJobs TestWorkerPool \<le> jobsCap TestWorkerPool"
    by (simp_all add: TestWorkerPool_def)
  then have h: "closed (jobs (init TestWorkerPool)) \<or> \<not> inlineSend TestWorkerPool \<or>
      numJobs TestWorkerPool \<le> jobsCap TestWorkerPool" by simp
  obtain t where t: "run TestWorkerPool pool_run (init TestWorkerPool) = Some t"
    and m: "main t = MVerify" and w: "workers t = [WExited, WExited, WExited]"
    and d: "drained t = [2, 4, 6, 8, 10, 12, 14, 16, 18, 20]"
    by (simp add: TestWorkerPool_def pool_run_def step_defs)
  from drain_yields_every_result [OF r n h] t m
  have "length (drained t) = numJobs TestWorkerPool"
    "length pool_run \<le> steps_left TestWorkerPool (init TestWorkerPool)"
    by blast+
  with r n c t m w d show ?thesis by blast
qed

text \<open>
  C2. In every run, \<^verbatim>\<open>close(results)\<close> is executed at most once and never panics; the
  channel is closed exactly when it has been executed once, and it has been once the
  range loop has ended. The step that executes it is a step of the closer goroutine,
  never of a worker, and it is taken after \<^verbatim>\<open>wg.Wait()\<close> has returned, when every worker
  has been started and has exited. From then on every worker has exited, so none can
  send to the closed channel; no run reaches a panic. And the close does happen: where
  the jobs can all be submitted, a continuation that executes it exists, every
  continuation is finite, and one that has not executed it yet can take a further step.
\<close>

theorem results_closed_once_after_join:
  assumes "run cfg as (init cfg) = Some s" and "exec cfg a s = Some s'"
  shows "\<not> panicked s' \<and> closes s' \<le> 1 \<and>
         (closed (results s') \<longleftrightarrow> closes s' = 1) \<and>
         (closes s' \<noteq> closes s \<or> closed (results s') \<noteq> closed (results s) \<longrightarrow>
            a = ACloser \<and> closes s = 0 \<and> closes s' = 1 \<and> closer s = CClose \<and> wg s = 0 \<and>
            length (workers s) = numWorkers cfg \<and> (\<forall>w\<in>set (workers s). w = WExited)) \<and>
         (closed (results s') \<longrightarrow>
            length (workers s') = numWorkers cfg \<and> (\<forall>w\<in>set (workers s'). w = WExited)) \<and>
         (main s' = MVerify \<longrightarrow> closes s' = 1) \<and>
         (closed (jobs s) \<or> \<not> inlineSend cfg \<or> numJobs cfg \<le> jobsCap cfg \<longrightarrow>
            (\<exists>bs t. run cfg bs s = Some t \<and> closes t = 1 \<and> closed (results t)) \<and>
            (\<forall>bs t. run cfg bs s = Some t \<longrightarrow>
               length bs \<le> steps_left cfg s \<and> closes t \<le> 1 \<and>
               (closes t = 0 \<longrightarrow> (\<exists>a' t'. exec cfg a' t = Some t'))))"
proof -
  from assms(1) have inv: "pool_inv False cfg s" by (rule inv_reach)
  from inv assms(2) have inv': "pool_inv False cfg s'" by (rule inv_exec)
  from inv' have np: "\<not> panicked s'" and k: "closes s' \<le> 1"
    and ck: "closed (results s') \<longleftrightarrow> closes s' = 1"
    and v: "main s' = MVerify \<longrightarrow> closes s' = 1"
    by (auto simp: pool_inv_def results_ok_def)
  from final_join [OF inv']
  have j: "closed (results s') \<longrightarrow>
      length (workers s') = numWorkers cfg \<and> (\<forall>w\<in>set (workers s'). w = WExited)"
    by simp
  from inv assms(2)
  have o: "closes s' \<noteq> closes s \<or> closed (results s') \<noteq> closed (results s) \<longrightarrow>
      a = ACloser \<and> closes s = 0 \<and> closes s' = 1 \<and> closer s = CClose \<and> wg s = 0 \<and>
      length (workers s) = numWorkers cfg \<and> (\<forall>w\<in>set (workers s). w = WExited)"
  proof (cases rule: exec_cases)
    case close_results
    with inv have "wg s = 0" "active (workers s) = 0" "closes s = 0"
      "length (workers s) = numWorkers cfg"
      by (auto simp: pool_inv_def wg_ok_def results_ok_def ctl_ok_def)
    with close_results show ?thesis by (simp add: active_zero)
  qed simp_all
  have e: "(\<exists>bs t. run cfg bs s = Some t \<and> closes t = 1 \<and> closed (results t)) \<and>
      (\<forall>bs t. run cfg bs s = Some t \<longrightarrow>
         length bs \<le> steps_left cfg s \<and> closes t \<le> 1 \<and>
         (closes t = 0 \<longrightarrow> (\<exists>a' t'. exec cfg a' t = Some t')))"
    if h: "closed (jobs s) \<or> \<not> inlineSend cfg \<or> numJobs cfg \<le> jobsCap cfg"
  proof -
    have every: "length bs \<le> steps_left cfg s \<and> closes t \<le> 1 \<and>
        (closes t = 0 \<longrightarrow> (\<exists>a' t'. exec cfg a' t = Some t'))"
      if r: "run cfg bs s = Some t" for bs t
    proof -
      from inv_run [OF inv r] have it: "pool_inv False cfg t" .
      then have c: "closes t \<le> 1" and m: "closes t = 0 \<longrightarrow> main t \<noteq> MVerify"
        by (auto simp: pool_inv_def results_ok_def)
      from steps_left_run [OF inv r] have b: "length bs \<le> steps_left cfg s" by simp
      from progress_start [OF it _ start_cond_run [OF inv r h]] m
      have "closes t = 0 \<longrightarrow> (\<exists>a' t'. exec cfg a' t = Some t')" by blast
      with b c show ?thesis by simp
    qed
    from finishes_start [OF inv h]
    obtain bs t where r: "run cfg bs s = Some t" and m: "main t = MVerify" by blast
    from inv_run [OF inv r] m have "closes t = 1 \<and> closed (results t)"
      by (auto simp: pool_inv_def results_ok_def)
    with r have "\<exists>bs t. run cfg bs s = Some t \<and> closes t = 1 \<and> closed (results t)" by blast
    with every show ?thesis by blast
  qed
  from np k ck v j o e show ?thesis by blast
qed

theorem results_closed_once_after_join_witness:
  "\<exists>s s' t. run TestWorkerPool (take 40 pool_run) (init TestWorkerPool) = Some s \<and>
      exec TestWorkerPool ACloser s = Some s' \<and> closed (jobs s) \<and>
      \<not> closed (results s) \<and> closed (results s') \<and>
      closes s = 0 \<and> closes s' = 1 \<and> workers s = [WExited, WExited, WExited] \<and>
      workers s' = [WExited, WExited, WExited] \<and> wg s = 0 \<and> \<not> panicked s' \<and>
      (\<exists>bs u. run TestWorkerPool bs s = Some u \<and> closes u = 1 \<and> closed (results u)) \<and>
      run TestWorkerPool pool_run (init TestWorkerPool) = Some t \<and> closes t = 1 \<and>
      closed (results t) \<and> main t = MVerify"
proof -
  obtain s where r: "run TestWorkerPool (take 40 pool_run) (init TestWorkerPool) = Some s"
    and s: "\<not> closed (results s)" "workers s = [WExited, WExited, WExited]"
      "closer s = CClose" "\<not> panicked s" "closes s = 0" "closed (jobs s)"
    by (simp add: TestWorkerPool_def pool_run_def step_defs)
  from s obtain s' where e: "exec TestWorkerPool ACloser s = Some s'"
    and c: "closed (results s')" and w: "workers s' = [WExited, WExited, WExited]"
    by (simp add: exec_def closer_step_def chan_close_def)
  obtain t where t: "run TestWorkerPool pool_run (init TestWorkerPool) = Some t"
    and m: "main t = MVerify" "closes t = 1" "closed (results t)"
    by (simp add: TestWorkerPool_def pool_run_def step_defs)
  from results_closed_once_after_join [OF r e] s(1,6) c
  have "closes s' = 1" "wg s = 0" "\<not> panicked s'"
    "\<exists>bs u. run TestWorkerPool bs s = Some u \<and> closes u = 1 \<and> closed (results u)"
    by blast+
  with r e s c w t m show ?thesis by blast
qed

text \<open>
  C3. In every run no job is received twice: the receipts recorded so far carry pairwise
  distinct jobs, so no two workers receive the same job; every job sent is either still
  in the buffer or was received once; and when the run has ended, every job \<open>1 .. numJobs\<close>
  was received by exactly one worker.
\<close>

theorem job_delivered_to_one_worker:
  assumes "run cfg as (init cfg) = Some s"
  shows "distinct (map snd (delivered s)) \<and>
         (\<forall>i i' j. (i, j) \<in> set (delivered s) \<and> (i', j) \<in> set (delivered s) \<longrightarrow> i = i') \<and>
         mset (map snd (delivered s)) + mset (buf (jobs s)) = mset (sent cfg (producer s)) \<and>
         (main s = MVerify \<and> 1 \<le> numWorkers cfg \<longrightarrow>
            (\<forall>j\<in>{1..int (numJobs cfg)}. \<exists>!i. (i, j) \<in> set (delivered s)))"
proof -
  from assms have inv: "pool_inv False cfg s" by (rule inv_reach)
  from delivered_once [OF inv] have d: "distinct (map snd (delivered s))" ..
  then have u: "(i, j) \<in> set (delivered s) \<Longrightarrow> (i', j) \<in> set (delivered s) \<Longrightarrow> i = i'"
    for i i' j
    by (rule same_job_same_worker)
  from inv have c: "mset (map snd (delivered s)) + mset (buf (jobs s)) = mset (sent cfg (producer s))"
    by (simp add: pool_inv_def sent_ok_def)
  have "\<exists>!i. (i, j) \<in> set (delivered s)"
    if m: "main s = MVerify" and n: "1 \<le> numWorkers cfg" and j: "j \<in> {1..int (numJobs cfg)}"
    for j
  proof -
    from final_flow [OF inv m n]
    have "mset (map snd (delivered s)) = mset [1..int (numJobs cfg)]" by simp
    from mset_eq_setD [OF this] j have "j \<in> snd ` set (delivered s)" by simp
    then obtain i where "(i, j) \<in> set (delivered s)" by force
    with u show ?thesis by blast
  qed
  with d u c show ?thesis by blast
qed

theorem job_delivered_to_one_worker_witness:
  "\<exists>s. run (scenario False) scenario_run (init (scenario False)) = Some s \<and>
       main s = MVerify \<and> 1 \<le> numWorkers (scenario False) \<and>
       delivered s = [(0, 1), (1, 2), (1, 3), (0, 4), (0, 5)] \<and>
       distinct (map snd (delivered s))"
proof -
  obtain s where r: "run (scenario False) scenario_run (init (scenario False)) = Some s"
    and m: "main s = MVerify"
    and d: "delivered s = [(0, 1), (1, 2), (1, 3), (0, 4), (0, 5)]"
    by (simp add: scenario_def scenario_run_def step_defs)
  have n: "1 \<le> numWorkers (scenario False)" by (simp add: scenario_def)
  from job_delivered_to_one_worker [OF r] r m n d show ?thesis by blast
qed

text \<open>
  C4. Once \<^verbatim>\<open>jobs\<close> has been closed in a run of the pool, it stays closed, and in every
  later state \<^verbatim>\<open>Submit\<close> of any job fails with \<^verbatim>\<open>Closed\<close> and leaves the state as it is;
  the same holds in any state right after a \<^verbatim>\<open>CloseIntake\<close> that succeeded. On an open
  intake \<^verbatim>\<open>Submit\<close> does not fail. The pool itself never sends after the close: its sender
  is done and no run panics.
\<close>

theorem submit_after_close_fails:
  assumes "run cfg as (init cfg) = Some s" and "closed (jobs s)" and "run cfg bs s = Some t"
  shows "Submit j t = (Fails Closed, t) \<and> closed (jobs t) \<and> producer t = PDone \<and>
         \<not> panicked t \<and>
         (\<forall>u u'. CloseIntake u = Inr u' \<longrightarrow> Submit j u' = (Fails Closed, u')) \<and>
         (\<forall>u. \<not> closed (jobs u) \<longrightarrow> fst (Submit j u) \<noteq> Fails Closed)"
proof -
  from assms(1) have inv: "pool_inv False cfg s" by (rule inv_reach)
  from closed_jobs_run [OF inv assms(3,2)] have c: "closed (jobs t)" .
  from inv_run [OF inv assms(3)] c have p: "producer t = PDone" and np: "\<not> panicked t"
    by (auto simp: pool_inv_def jobs_ok_def)
  from c have s: "Submit j t = (Fails Closed, t)" by (simp add: Submit_def chan_send_def)
  have a: "Submit j u' = (Fails Closed, u')" if "CloseIntake u = Inr u'" for u u'
    using that by (auto simp: CloseIntake_def chan_close_def Submit_def chan_send_def
        split: if_splits)
  have b: "fst (Submit j u) \<noteq> Fails Closed" if "\<not> closed (jobs u)" for u
    using that by (simp add: Submit_def chan_send_def)
  from s c p np a b show ?thesis by blast
qed

theorem submit_after_close_fails_witness:
  "\<exists>t. run small_pool (take 5 small_run) (init small_pool) = Some closed_pool \<and>
       closed (jobs closed_pool) \<and> run small_pool [AWorker 0, AWorker 0] closed_pool = Some t \<and>
       Submit 7 closed_pool = (Fails Closed, closed_pool) \<and> Submit 7 t = (Fails Closed, t) \<and>
       buf (jobs t) = [] \<and> closed (jobs t) \<and>
       Submit 7 (init small_pool) = (Submitted, (init small_pool)\<lparr>jobs := \<lparr>buf = [7], cap = 1, closed = False\<rparr>\<rparr>)"
proof -
  have r: "run small_pool (take 5 small_run) (init small_pool) = Some closed_pool"
    by (simp add: small_pool_def small_run_def closed_pool_def step_defs)
  have c: "closed (jobs closed_pool)" by (simp add: closed_pool_def)
  obtain t where t: "run small_pool [AWorker 0, AWorker 0] closed_pool = Some t"
    and b: "buf (jobs t) = []"
    by (simp add: small_pool_def closed_pool_def step_defs)
  have e: "run small_pool [] closed_pool = Some closed_pool" by simp
  have i: "Submit 7 (init small_pool) =
      (Submitted, (init small_pool)\<lparr>jobs := \<lparr>buf = [7], cap = 1, closed = False\<rparr>\<rparr>)"
    by (simp add: Submit_def small_pool_def step_defs)
  from submit_after_close_fails [OF r c t, of 7] submit_after_close_fails [OF r c e, of 7]
    r c t b i
  show ?thesis by blast
qed

text \<open>
  C5. From every reachable state in which \<^verbatim>\<open>jobs\<close> has been closed (or, when a goroutine
  of its own sends the jobs, from every reachable state): unless the range loop over
  \<^verbatim>\<open>results\<close> has ended, some goroutine can take a step; every step lowers the bound
  \<open>steps_left\<close> and leaves \<^verbatim>\<open>jobs\<close> closed, so every continuation is finite; a
  continuation that ends the range loop exists; and when the loop has ended,
  \<^verbatim>\<open>wg.Wait()\<close> has returned, the wait group is zero and every worker has exited.
\<close>

theorem pool_terminates:
  assumes "run cfg as (init cfg) = Some s" and "closed (jobs s) \<or> \<not> inlineSend cfg"
  shows "(main s \<noteq> MVerify \<longrightarrow> (\<exists>a s'. exec cfg a s = Some s')) \<and>
         (\<forall>a s'. exec cfg a s = Some s' \<longrightarrow>
            steps_left cfg s' < steps_left cfg s \<and> (closed (jobs s) \<longrightarrow> closed (jobs s'))) \<and>
         (\<forall>bs t. run cfg bs s = Some t \<longrightarrow> length bs \<le> steps_left cfg s) \<and>
         (\<exists>bs t. run cfg bs s = Some t \<and> main t = MVerify) \<and>
         (main s = MVerify \<longrightarrow>
            closer s = CDone \<and> wg s = 0 \<and> length (workers s) = numWorkers cfg \<and>
            (\<forall>w\<in>set (workers s). w = WExited))"
proof -
  from assms(1) have inv: "pool_inv False cfg s" by (rule inv_reach)
  have p: "main s \<noteq> MVerify \<longrightarrow> (\<exists>a s'. exec cfg a s = Some s')"
    using progress [OF inv _ assms(2)] by blast
  have d: "\<forall>a s'. exec cfg a s = Some s' \<longrightarrow>
      steps_left cfg s' < steps_left cfg s \<and> (closed (jobs s) \<longrightarrow> closed (jobs s'))"
    using steps_left_exec [OF inv] closed_jobs_exec [OF inv] by blast
  have b: "\<forall>bs t. run cfg bs s = Some t \<longrightarrow> length bs \<le> steps_left cfg s"
    using steps_left_run [OF inv] by fastforce
  from inv have "main s = MVerify \<longrightarrow> closed (results s)"
    by (auto simp: pool_inv_def results_ok_def)
  with final_join [OF inv]
  have f: "main s = MVerify \<longrightarrow>
      closer s = CDone \<and> wg s = 0 \<and> length (workers s) = numWorkers cfg \<and>
      (\<forall>w\<in>set (workers s). w = WExited)"
    by simp
  from p d b finishes [OF inv assms(2)] f show ?thesis by blast
qed

theorem pool_terminates_witness:
  "run small_pool (take 5 small_run) (init small_pool) = Some closed_pool \<and>
   closed (jobs closed_pool) \<and> main closed_pool \<noteq> MVerify \<and>
   (\<exists>a s'. exec small_pool a closed_pool = Some s') \<and>
   (\<exists>bs t. run small_pool bs closed_pool = Some t \<and> main t = MVerify) \<and>
   (\<exists>t. run small_pool (drop 5 small_run) closed_pool = Some t \<and> main t = MVerify \<and>
      closer t = CDone \<and> wg t = 0 \<and> workers t = [WExited] \<and>
      length (drop 5 small_run) \<le> steps_left small_pool closed_pool)"
proof -
  have r: "run small_pool (take 5 small_run) (init small_pool) = Some closed_pool"
    by (simp add: small_pool_def small_run_def closed_pool_def step_defs)
  have c: "closed (jobs closed_pool)" and m: "main closed_pool \<noteq> MVerify"
    by (simp_all add: closed_pool_def)
  obtain t where t: "run small_pool (drop 5 small_run) closed_pool = Some t"
    and f: "main t = MVerify" "closer t = CDone" "wg t = 0" "workers t = [WExited]"
    by (simp add: small_pool_def small_run_def closed_pool_def step_defs)
  from pool_terminates [OF r] c have
    "main closed_pool \<noteq> MVerify \<longrightarrow> (\<exists>a s'. exec small_pool a closed_pool = Some s')"
    "\<forall>bs t. run small_pool bs closed_pool = Some t \<longrightarrow> length bs \<le> steps_left small_pool closed_pool"
    "\<exists>bs t. run small_pool bs closed_pool = Some t \<and> main t = MVerify"
    by blast+
  with r c m t f show ?thesis by blast
qed




section \<open>The ring buffer\<close>

lemmas rb_defs = rb_exec_def forwarder_step_def rb_producer_step_def rb_consumer_step_def
  rb_hand_in_def rb_hand_out_def rb_init_def chan_send_def chan_recv_def chan_close_def
  make_chan_def

text \<open>
  C9. The forwarder of TestRingBuffer can block for ever. On the schedule \<open>rb_race\<close> it
  stands at \<^verbatim>\<open><-outCh\<close> with \<^verbatim>\<open>outCh\<close> empty, and it is the only sender on \<^verbatim>\<open>outCh\<close>:
  no goroutine can take a step, the producer still has the values 4 to 9 to send, and
  \<^verbatim>\<open>outCh\<close> is not closed. (The forwarder of BenchmarkRingBuffer receives with
  \<^verbatim>\<open>select { case <-outCh: default: }\<close> and cannot block there.)
\<close>

theorem ring_buffer_forwarder_stuck:
  "rb_run TestRingBuffer rb_race (rb_init TestRingBuffer) = Some rb_stuck \<and>
   rb_exec TestRingBuffer RProducer rb_stuck = None \<and>
   rb_exec TestRingBuffer RForwarder rb_stuck = None \<and>
   rb_exec TestRingBuffer RConsumer rb_stuck = None \<and>
   rb_exec TestRingBuffer RHandIn rb_stuck = None \<and>
   rb_exec TestRingBuffer RHandOut rb_stuck = None \<and>
   prod rb_stuck = RSend 4 \<and> fwd rb_stuck = FDrop 3 \<and> cons rb_stuck = RCollect \<and>
   buf (outCh rb_stuck) = [] \<and> \<not> closed (outCh rb_stuck) \<and> \<not> closed (inCh rb_stuck) \<and>
   \<not> rb_panicked rb_stuck"
  by (simp add: TestRingBuffer_def rb_race_def rb_stuck_def rb_defs)

section \<open>The claims about sleepAndTalk\<close>

text \<open>
  C10, as amended. \<^verbatim>\<open>sleepAndTalk\<close> logs exactly one line, the message or the context's
  error. It logs the error when the context is cancelled before \<open>d\<close> has elapsed and the
  \<^verbatim>\<open>select\<close> polls before \<open>d\<close> has elapsed. It logs the message when the context is never
  cancelled, or is cancelled only after the timer has fired and after the \<^verbatim>\<open>select\<close> has
  polled. In every other case both channels are ready when the \<^verbatim>\<open>select\<close> proceeds, and
  the line is the one it picks. The default \<^verbatim>\<open>main\<close> logs "started" and then the error
  \<^verbatim>\<open>context.Canceled\<close>, provided \<^verbatim>\<open>cancel\<close> has run and the \<^verbatim>\<open>select\<close> has polled before the
  five seconds have elapsed.
\<close>

theorem sleepAndTalk_branches:
  "(sleepAndTalk tc d msg rt = [LogMsg msg] \<or>
    sleepAndTalk tc d msg rt = [LogErr (cancel_err tc)]) \<and>
   (\<forall>u. cancel_at tc = Some u \<and> u < nat d \<and> poll_at rt < nat d \<longrightarrow>
      sleepAndTalk tc d msg rt = [LogErr (cancel_err tc)]) \<and>
   (cancel_at tc = None \<or>
    (\<exists>u. cancel_at tc = Some u \<and> nat d + timer_lag rt < u \<and> poll_at rt < u) \<longrightarrow>
      sleepAndTalk tc d msg rt = [LogMsg msg]) \<and>
   (\<forall>u. cancel_at tc = Some u \<and>
        (u = nat d + timer_lag rt \<or>
         u < nat d + timer_lag rt \<and> nat d + timer_lag rt \<le> poll_at rt \<or>
         nat d + timer_lag rt < u \<and> u \<le> poll_at rt) \<longrightarrow>
      sleepAndTalk tc d msg rt =
        (if pick rt = TimerCase then [LogMsg msg] else [LogErr (cancel_err tc)])) \<and>
   (\<not> (length args > 1 \<and> (args ! 1 = ''server'' \<or> args ! 1 = ''client'')) \<and>
    Second + cancel_lag < 5 * Second \<and> poll_at rt < 5 * Second \<longrightarrow>
      main_program args cancel_lag rt = Logged [LogMsg ''started'', LogErr Canceled])"
proof -
  have one: "sleepAndTalk tc d msg rt = [LogMsg msg] \<or>
      sleepAndTalk tc d msg rt = [LogErr (cancel_err tc)]"
    by (auto simp: sleepAndTalk_def ctx_at_def cancel_with_def WithCancel_def Let_def
        split: option.splits)
  have early: "sleepAndTalk tc d msg rt = [LogErr (cancel_err tc)]"
    if "cancel_at tc = Some u" "u < nat d" "poll_at rt < nat d" for u
    using that
    by (auto simp: sleepAndTalk_def ctx_at_def cancel_with_def WithCancel_def Let_def
        min_def max_def)
  have late: "sleepAndTalk tc d msg rt = [LogMsg msg]"
    if "cancel_at tc = None \<or>
        (\<exists>u. cancel_at tc = Some u \<and> nat d + timer_lag rt < u \<and> poll_at rt < u)"
    using that
    by (auto simp: sleepAndTalk_def ctx_at_def cancel_with_def WithCancel_def Let_def
        min_def max_def)
  have both: "sleepAndTalk tc d msg rt =
      (if pick rt = TimerCase then [LogMsg msg] else [LogErr (cancel_err tc)])"
    if "cancel_at tc = Some u"
      "u = nat d + timer_lag rt \<or>
       u < nat d + timer_lag rt \<and> nat d + timer_lag rt \<le> poll_at rt \<or>
       nat d + timer_lag rt < u \<and> u \<le> poll_at rt" for u
    using that
    by (auto simp: sleepAndTalk_def ctx_at_def cancel_with_def WithCancel_def Let_def
        min_def max_def)
  have prog: "main_program args cancel_lag rt = Logged [LogMsg ''started'', LogErr Canceled]"
    if "\<not> (length args > 1 \<and> (args ! 1 = ''server'' \<or> args ! 1 = ''client''))"
      "Second + cancel_lag < 5 * Second" "poll_at rt < 5 * Second"
    using that
    by (auto simp: main_program_def sleepAndTalk_def ctx_at_def cancel_with_def WithCancel_def
        Let_def min_def max_def Second_def)
  from one early late both prog show ?thesis by blast
qed

theorem sleepAndTalk_branches_witness:
  "sleepAndTalk \<lparr>cancel_at = Some Second, cancel_err = Canceled\<rparr> (5 * int Second) ''hello''
     \<lparr>timer_lag = 1000, poll_at = 300, pick = TimerCase\<rparr> = [LogErr Canceled] \<and>
   sleepAndTalk \<lparr>cancel_at = Some (100 * Second), cancel_err = Canceled\<rparr> (5 * int Second)
     ''hello'' \<lparr>timer_lag = 1000, poll_at = 300, pick = DoneCase\<rparr> = [LogMsg ''hello''] \<and>
   sleepAndTalk \<lparr>cancel_at = None, cancel_err = Canceled\<rparr> (5 * int Second)
     ''hello'' \<lparr>timer_lag = 1000, poll_at = 300, pick = DoneCase\<rparr> = [LogMsg ''hello''] \<and>
   sleepAndTalk \<lparr>cancel_at = Some 0, cancel_err = Canceled\<rparr> 1
     ''hello'' \<lparr>timer_lag = 0, poll_at = 300, pick = DoneCase\<rparr> = [LogErr Canceled] \<and>
   main_program [''main''] 20000 \<lparr>timer_lag = 1000, poll_at = 300, pick = TimerCase\<rparr> =
     Logged [LogMsg ''started'', LogErr Canceled]"
  using sleepAndTalk_branches [of "\<lparr>cancel_at = Some Second, cancel_err = Canceled\<rparr>"
      "5 * int Second" "''hello''" "\<lparr>timer_lag = 1000, poll_at = 300, pick = TimerCase\<rparr>"
      "[''main'']" 20000]
    sleepAndTalk_branches [of "\<lparr>cancel_at = Some (100 * Second), cancel_err = Canceled\<rparr>"
      "5 * int Second" "''hello''" "\<lparr>timer_lag = 1000, poll_at = 300, pick = DoneCase\<rparr>"
      "[''main'']" 20000]
    sleepAndTalk_branches [of "\<lparr>cancel_at = None, cancel_err = Canceled\<rparr>"
      "5 * int Second" "''hello''" "\<lparr>timer_lag = 1000, poll_at = 300, pick = DoneCase\<rparr>"
      "[''main'']" 20000]
    sleepAndTalk_branches [of "\<lparr>cancel_at = Some 0, cancel_err = Canceled\<rparr>"
      1 "''hello''" "\<lparr>timer_lag = 0, poll_at = 300, pick = DoneCase\<rparr>" "[''main'']" 20000]
  by (simp add: Second_def)

text \<open>
  The claim as stated fails whenever both cases are ready when the \<^verbatim>\<open>select\<close> proceeds. A
  context that was cancelled before the call, so before \<open>d\<close> elapses, with \<open>d\<close> one
  nanosecond and the first poll 300 nanoseconds after the call: one choice logs the
  message, the other the error. The same with \<open>d = 0\<close> and a poll at once. The context
  and the duration do not fix the branch.
\<close>

theorem sleepAndTalk_tie:
  "sleepAndTalk \<lparr>cancel_at = Some 0, cancel_err = Canceled\<rparr> 1 ''hello''
     \<lparr>timer_lag = 0, poll_at = 300, pick = TimerCase\<rparr> = [LogMsg ''hello''] \<and>
   sleepAndTalk \<lparr>cancel_at = Some 0, cancel_err = Canceled\<rparr> 1 ''hello''
     \<lparr>timer_lag = 0, poll_at = 300, pick = DoneCase\<rparr> = [LogErr Canceled] \<and>
   sleepAndTalk \<lparr>cancel_at = Some 0, cancel_err = Canceled\<rparr> 0 ''hello''
     \<lparr>timer_lag = 0, poll_at = 0, pick = TimerCase\<rparr> = [LogMsg ''hello''] \<and>
   sleepAndTalk \<lparr>cancel_at = Some 0, cancel_err = Canceled\<rparr> 0 ''hello''
     \<lparr>timer_lag = 0, poll_at = 0, pick = DoneCase\<rparr> = [LogErr Canceled]"
  by (simp add: sleepAndTalk_def ctx_at_def cancel_with_def WithCancel_def)

section \<open>The pool with the cancellation overlay: the invariant and termination\<close>

lemma pool_inv_cancel: "pool_inv tok cfg s \<Longrightarrow> pool_inv True cfg s"
  by (simp add: pool_inv_def jobs_ok_def)

lemma inv_worker_stop:
  assumes inv: "pool_inv True cfg s" and i: "i < length (workers s)"
    and w: "workers s ! i = WRange"
  shows "pool_inv True cfg (wg_done (s\<lparr>workers := (workers s)[i := WExited]\<rparr>))"
proof -
  from active_update [OF i, of WExited] w
  have a: "active ((workers s)[i := WExited]) + 1 = active (workers s)" by simp
  from held_update [OF i, of WExited] w
  have h: "held ((workers s)[i := WExited]) = held (workers s)" by simp
  from inv a have g: "\<not> wg s - 1 < 0"
    by (auto simp: pool_inv_def wg_ok_def)
  from inv have "jobs_ok cfg True (jobs s) (producer s) ((workers s)[i := WExited])"
    by (auto simp: pool_inv_def jobs_ok_def)
  moreover from inv a have "wg_ok (wg s - 1) ((workers s)[i := WExited]) (closer s)"
    by (auto simp: pool_inv_def wg_ok_def)
  moreover from inv h
  have "out_ok ((workers s)[i := WExited]) (buf (results s)) (drained s) (delivered s)"
    by (simp add: pool_inv_def out_ok_def)
  ultimately show ?thesis using inv g by (simp add: wg_done_def pool_inv_def)
qed

lemma cexec_cases [consumes 1, case_names pool cancel stop]:
  assumes "cexec cfg a cs = Some cs'"
  obtains
    (pool) b s' where "a = Pool b" "exec cfg b (pool cs) = Some s'" "cs' = cs\<lparr>pool := s'\<rparr>"
      "done_ready (token cs) \<longrightarrow> \<not> dequeues b (pool cs)"
  | (cancel) "a = Cancel" "\<not> done_ready (token cs)" "cs' = cs\<lparr>token := cancel (token cs)\<rparr>"
  | (stop) i where "a = WorkerStop i" "done_ready (token cs)" "\<not> panicked (pool cs)"
      "i < length (workers (pool cs))" "workers (pool cs) ! i = WRange"
      "cs' = cs\<lparr>pool := wg_done ((pool cs)\<lparr>workers := (workers (pool cs))[i := WExited]\<rparr>)\<rparr>"
  using assms by (cases a) (auto simp: cexec_def split: if_splits)

lemma done_ready_cancel: "done_ready (cancel c)"
  by (simp add: done_ready_def cancel_def cancel_sets)

lemma cinv_init: "cinv cfg (cinit cfg)"
  by (simp add: cinv_def cinit_def inv_init)

lemma cinv_cexec:
  assumes inv: "cinv cfg cs" and step: "cexec cfg a cs = Some cs'"
  shows "cinv cfg cs'"
  using step
proof (cases rule: cexec_cases)
  case (pool b s')
  with inv inv_exec [of "done_ready (token cs)" cfg "pool cs" b s'] show ?thesis
    by (simp add: cinv_def)
next
  case cancel
  with inv pool_inv_cancel show ?thesis by (simp add: cinv_def done_ready_cancel)
next
  case (stop i)
  with inv inv_worker_stop [of cfg "pool cs" i] show ?thesis by (simp add: cinv_def)
qed

lemma cinv_crun: "cinv cfg cs \<Longrightarrow> crun cfg as cs = Some cs' \<Longrightarrow> cinv cfg cs'"
proof (induction as arbitrary: cs)
  case Nil
  then show ?case by simp
next
  case (Cons a as)
  then show ?case by (auto split: option.splits dest: cinv_cexec)
qed

lemma csteps_left_cexec:
  assumes inv: "cinv cfg cs" and step: "cexec cfg a cs = Some cs'"
  shows "csteps_left cfg cs' < csteps_left cfg cs"
  using step
proof (cases rule: cexec_cases)
  case (pool b s')
  with inv steps_left_exec [of "done_ready (token cs)" cfg "pool cs" b s'] show ?thesis
    by (simp add: cinv_def csteps_left_def)
next
  case cancel
  then show ?thesis by (simp add: csteps_left_def done_ready_cancel)
next
  case (stop i)
  from inv stop active_pos [of i "workers (pool cs)"]
  have g: "\<not> wg (pool cs) - 1 < 0" by (auto simp: cinv_def pool_inv_def wg_ok_def)
  from stop size_held_update [of i "workers (pool cs)" WExited]
    active_update [of i "workers (pool cs)" WExited] g
  show ?thesis by (simp add: csteps_left_def steps_left_def wg_done_def)
qed

lemma csteps_left_crun:
  "cinv cfg cs \<Longrightarrow> crun cfg as cs = Some ct \<Longrightarrow>
   length as + csteps_left cfg ct \<le> csteps_left cfg cs"
proof (induction as arbitrary: cs)
  case Nil
  then show ?case by simp
next
  case (Cons a as)
  from Cons.prems(2) obtain cs' where a: "cexec cfg a cs = Some cs'"
    and r: "crun cfg as cs' = Some ct"
    by (auto split: option.splits)
  from Cons.IH [OF cinv_cexec [OF Cons.prems(1) a] r] csteps_left_cexec [OF Cons.prems(1) a]
  show ?case by simp
qed

text \<open>After the cancellation nothing is received from the intake any more.\<close>

lemma cancelled_cexec:
  assumes inv: "cinv cfg cs" and step: "cexec cfg a cs = Some cs'" and c: "done_ready (token cs)"
  shows "done_ready (token cs') \<and> delivered (pool cs') = delivered (pool cs) \<and>
         prefix (buf (jobs (pool cs))) (buf (jobs (pool cs'))) \<and>
         (closed (jobs (pool cs)) \<longrightarrow> closed (jobs (pool cs')))"
  using step
proof (cases rule: cexec_cases)
  case (pool b s')
  from inv have "pool_inv (done_ready (token cs)) cfg (pool cs)" by (simp add: cinv_def)
  then have "delivered s' = delivered (pool cs) \<and> prefix (buf (jobs (pool cs))) (buf (jobs s')) \<and>
      (closed (jobs (pool cs)) \<longrightarrow> closed (jobs s'))"
    using pool(2)
  proof (cases rule: exec_cases)
    case (recv i j js)
    with pool(1,4) c show ?thesis by (simp add: dequeues_def)
  next
    case (hand_job i j)
    with pool(1,4) c show ?thesis by (simp add: dequeues_def)
  qed simp_all
  with pool c show ?thesis by simp
next
  case cancel
  with c show ?thesis by simp
next
  case (stop i)
  with c show ?thesis by (simp add: wg_done_def)
qed

lemma cancelled_crun:
  "cinv cfg cs \<Longrightarrow> crun cfg as cs = Some ct \<Longrightarrow> done_ready (token cs) \<Longrightarrow>
   done_ready (token ct) \<and> delivered (pool ct) = delivered (pool cs) \<and>
   prefix (buf (jobs (pool cs))) (buf (jobs (pool ct))) \<and>
   (closed (jobs (pool cs)) \<longrightarrow> closed (jobs (pool ct)))"
proof (induction as arbitrary: cs)
  case Nil
  then show ?case by simp
next
  case (Cons a as)
  from Cons.prems(2) obtain cs' where a: "cexec cfg a cs = Some cs'"
    and r: "crun cfg as cs' = Some ct"
    by (auto split: option.splits)
  from cancelled_cexec [OF Cons.prems(1) a Cons.prems(3)]
    Cons.IH [OF cinv_cexec [OF Cons.prems(1) a] r]
  show ?case by (auto intro: prefix_order.trans)
qed

lemma closed_jobs_cexec:
  assumes inv: "cinv cfg cs" and step: "cexec cfg a cs = Some cs'"
    and c: "closed (jobs (pool cs))"
  shows "closed (jobs (pool cs'))"
  using step
proof (cases rule: cexec_cases)
  case (pool b s')
  with inv c closed_jobs_exec [of "done_ready (token cs)" cfg "pool cs" b s'] show ?thesis
    by (simp add: cinv_def)
next
  case cancel
  with c show ?thesis by simp
next
  case (stop i)
  with c show ?thesis by (simp add: wg_done_def)
qed

lemma cprogress:
  assumes inv: "cinv cfg cs" and nf: "main (pool cs) \<noteq> MVerify"
    and h: "closed (jobs (pool cs)) \<or> \<not> inlineSend cfg"
  shows "\<exists>a cs'. cexec cfg a cs = Some cs'"
proof (cases "done_ready (token cs)")
  case False
  with inv have "cexec cfg Cancel cs = Some (cs\<lparr>token := cancel (token cs)\<rparr>)"
    by (simp add: cexec_def cinv_def pool_inv_def)
  then show ?thesis by blast
next
  case True
  define s where "s = pool cs"
  from inv True have pinv: "pool_inv True cfg s" by (simp add: cinv_def s_def)
  then have np: "\<not> panicked s" by (simp add: pool_inv_def)
  have moves: "\<not> dequeues b s \<Longrightarrow> exec cfg b s \<noteq> None \<Longrightarrow> ?thesis" for b
    by (intro exI [of _ "Pool b"]) (auto simp: cexec_def s_def)
  have main_moves: "main_step cfg s \<noteq> None \<Longrightarrow> ?thesis"
    using np by (intro moves [of AMain]) (simp_all add: exec_def dequeues_def)
  show ?thesis
  proof (cases "main s")
    case MStart
    then show ?thesis by (intro main_moves) (auto simp: main_step_def)
  next
    case MSend
    with pinv h show ?thesis by (auto simp: pool_inv_def ctl_ok_def jobs_ok_def s_def)
  next
    case MGoCloser
    then show ?thesis by (intro main_moves) (auto simp: main_step_def)
  next
    case MVerify
    with nf show ?thesis by (simp add: s_def)
  next
    case MCollect
    note m = this
    show ?thesis
    proof (cases "buf (results s) = [] \<and> \<not> closed (results s)")
      case False
      then show ?thesis
        by (intro main_moves) (auto simp: m main_step_def chan_recv_def split: list.splits)
    next
      case empty: True
      with pinv m have c: "closer s = CWait \<or> closer s = CClose"
        by (cases "closer s") (auto simp: pool_inv_def ctl_ok_def results_ok_def)
      show ?thesis
      proof (cases "closer s = CClose \<or> wg s = 0")
        case True
        with c empty np show ?thesis
          by (intro moves [of ACloser])
            (auto simp: exec_def closer_step_def chan_close_def dequeues_def)
      next
        case False
        with pinv have "0 < active (workers s)" by (auto simp: pool_inv_def wg_ok_def)
        then obtain i where i: "i < length (workers s)" and w: "workers s ! i \<noteq> WExited"
          using active_witness by blast
        show ?thesis
        proof (cases "workers s ! i")
          case (WSend j)
          with i m empty np show ?thesis
            by (intro moves [of "AHandResult i"])
              (simp_all add: exec_def hand_result_def dequeues_def)
        next
          case WExited
          with w show ?thesis by simp
        next
          case WRange
          with i np \<open>done_ready (token cs)\<close>
          have "\<exists>cs'. cexec cfg (WorkerStop i) cs = Some cs'"
            by (simp add: cexec_def s_def)
          then show ?thesis by blast
        qed
      qed
    qed
  qed
qed

lemma cfinishes:
  "cinv cfg cs \<Longrightarrow> closed (jobs (pool cs)) \<or> \<not> inlineSend cfg \<Longrightarrow>
   \<exists>as ct. crun cfg as cs = Some ct \<and> main (pool ct) = MVerify"
proof (induction "csteps_left cfg cs" arbitrary: cs rule: less_induct)
  case less
  show ?case
  proof (cases "main (pool cs) = MVerify")
    case True
    then have "crun cfg [] cs = Some cs \<and> main (pool cs) = MVerify" by simp
    then show ?thesis by blast
  next
    case False
    from cprogress [OF less.prems(1) False less.prems(2)]
    obtain a cs' where a: "cexec cfg a cs = Some cs'" by blast
    from less.prems(2) closed_jobs_cexec [OF less.prems(1) a]
    have "closed (jobs (pool cs')) \<or> \<not> inlineSend cfg" by blast
    from less.hyps [OF csteps_left_cexec [OF less.prems(1) a]
        cinv_cexec [OF less.prems(1) a] this]
    obtain as ct where "crun cfg as cs' = Some ct" "main (pool ct) = MVerify" by blast
    with a have "crun cfg (a # as) cs = Some ct \<and> main (pool ct) = MVerify" by simp
    then show ?thesis by blast
  qed
qed

lemma drained_bound:
  assumes inv: "pool_inv tok cfg s"
  shows "length (drained s) \<le> length (delivered s) \<and> length (delivered s) \<le> numJobs cfg"
proof -
  from inv have "image_mset (\<lambda>j. go_int (j * 2)) (held (workers s)) + mset (buf (results s)) +
      mset (drained s) = image_mset (\<lambda>j. go_int (j * 2)) (mset (map snd (delivered s)))"
    by (simp add: pool_inv_def out_ok_def)
  from arg_cong [OF this, of size] have d: "length (drained s) \<le> length (delivered s)"
    by simp
  from sent_upto [OF inv] obtain k where k: "k \<le> int (numJobs cfg)"
    and s: "sent cfg (producer s) = [1..k]" by blast
  from inv s have "mset (map snd (delivered s)) + mset (buf (jobs s)) = mset [1..k]"
    by (simp add: pool_inv_def sent_ok_def)
  from arg_cong [OF this, of size] k have "length (delivered s) \<le> numJobs cfg"
    by simp
  with d show ?thesis ..
qed

text \<open>
  C8. In the pool with the cancellation overlay, from a reachable state in which the
  token is set: nothing more is received from the intake, so the jobs resident in it stay
  there; the results drained are at most the jobs received before the cancellation, hence
  at most \<^verbatim>\<open>numJobs\<close>, and none when nothing had been received; every continuation is
  bounded by \<open>csteps_left\<close>, some goroutine can take a step until the range loop over
  \<^verbatim>\<open>results\<close> has ended, a continuation that ends it exists, and at its end \<^verbatim>\<open>results\<close>
  is closed and every worker has exited. (Where the test function sends the jobs itself,
  this is from the close of \<^verbatim>\<open>jobs\<close> on.)
\<close>

theorem cancelled_pool_closes:
  assumes "crun cfg as (cinit cfg) = Some cs" and "done_ready (token cs)"
    and "crun cfg bs cs = Some ct" and "closed (jobs (pool cs)) \<or> \<not> inlineSend cfg"
  shows "delivered (pool ct) = delivered (pool cs) \<and>
         prefix (buf (jobs (pool cs))) (buf (jobs (pool ct))) \<and>
         length (drained (pool ct)) \<le> length (delivered (pool cs)) \<and>
         length (delivered (pool cs)) \<le> numJobs cfg \<and>
         (delivered (pool cs) = [] \<longrightarrow> drained (pool ct) = []) \<and>
         length bs \<le> csteps_left cfg cs \<and>
         (main (pool ct) \<noteq> MVerify \<longrightarrow> (\<exists>a cu. cexec cfg a ct = Some cu)) \<and>
         (\<exists>ds cu. crun cfg ds ct = Some cu \<and> main (pool cu) = MVerify) \<and>
         (main (pool ct) = MVerify \<longrightarrow>
            closed (results (pool ct)) \<and> closer (pool ct) = CDone \<and>
            (\<forall>w\<in>set (workers (pool ct)). w = WExited))"
proof -
  from cinv_crun [OF cinv_init assms(1)] have inv: "cinv cfg cs" .
  from cinv_crun [OF inv assms(3)] have inv': "cinv cfg ct" .
  from cancelled_crun [OF inv assms(3,2)]
  have d: "delivered (pool ct) = delivered (pool cs)"
    and p: "prefix (buf (jobs (pool cs))) (buf (jobs (pool ct)))"
    and c: "closed (jobs (pool cs)) \<longrightarrow> closed (jobs (pool ct))"
    by simp_all
  from inv' have pinv: "pool_inv (done_ready (token ct)) cfg (pool ct)" by (simp add: cinv_def)
  from drained_bound [OF pinv] d
  have l: "length (drained (pool ct)) \<le> length (delivered (pool cs))"
    "length (delivered (pool cs)) \<le> numJobs cfg"
    by simp_all
  then have e: "delivered (pool cs) = [] \<longrightarrow> drained (pool ct) = []" by auto
  from csteps_left_crun [OF inv assms(3)] have b: "length bs \<le> csteps_left cfg cs" by simp
  from assms(4) c have h: "closed (jobs (pool ct)) \<or> \<not> inlineSend cfg" by blast
  have g: "main (pool ct) \<noteq> MVerify \<longrightarrow> (\<exists>a cu. cexec cfg a ct = Some cu)"
    using cprogress [OF inv' _ h] by blast
  from pinv have "main (pool ct) = MVerify \<longrightarrow> closed (results (pool ct))"
    by (auto simp: pool_inv_def results_ok_def)
  with final_join [OF pinv]
  have f: "main (pool ct) = MVerify \<longrightarrow>
      closed (results (pool ct)) \<and> closer (pool ct) = CDone \<and>
      (\<forall>w\<in>set (workers (pool ct)). w = WExited)"
    by simp
  from d p l e b g cfinishes [OF inv' h] f show ?thesis by blast
qed

theorem cancelled_pool_closes_witness:
  "\<exists>cs ct. crun TestWorkerPool (cancel_run @ [Cancel]) (cinit TestWorkerPool) = Some cs \<and>
     done_ready (token cs) \<and> closed (jobs (pool cs)) \<and> delivered (pool cs) = [] \<and>
     buf (jobs (pool cs)) = [1, 2, 3, 4, 5, 6, 7, 8, 9, 10] \<and>
     crun TestWorkerPool after_cancel_run cs = Some ct \<and>
     main (pool ct) = MVerify \<and> drained (pool ct) = [] \<and> closed (results (pool ct)) \<and>
     buf (jobs (pool ct)) = [1, 2, 3, 4, 5, 6, 7, 8, 9, 10] \<and>
     workers (pool ct) = [WExited, WExited, WExited]"
proof -
  obtain cs where r: "crun TestWorkerPool (cancel_run @ [Cancel]) (cinit TestWorkerPool) = Some cs"
    and c: "done_ready (token cs)" "closed (jobs (pool cs))" "delivered (pool cs) = []"
      "buf (jobs (pool cs)) = [1, 2, 3, 4, 5, 6, 7, 8, 9, 10]"
      "workers (pool cs) = [WRange, WRange, WRange]" "main (pool cs) = MGoCloser"
      "\<not> panicked (pool cs)" "wg (pool cs) = 3" "buf (results (pool cs)) = []"
      "\<not> closed (results (pool cs))" "drained (pool cs) = []"
    by (simp add: TestWorkerPool_def cancel_run_def cinit_def cexec_def dequeues_def
        done_ready_def cancel_def cancel_with_def WithCancel_def step_defs)
  from c obtain ct where t: "crun TestWorkerPool after_cancel_run cs = Some ct"
    and f: "main (pool ct) = MVerify" "closed (results (pool ct))"
      "buf (jobs (pool ct)) = [1, 2, 3, 4, 5, 6, 7, 8, 9, 10]"
      "workers (pool ct) = [WExited, WExited, WExited]"
    by (simp add: TestWorkerPool_def after_cancel_run_def cexec_def dequeues_def step_defs)
  from cancelled_pool_closes [OF r c(1) t] c(2,3)
  have "drained (pool ct) = []" by blast
  with r c t f show ?thesis by blast
qed

end
